theory Spec2Isabelle
  imports Main "HOL-Library.AList"
begin

section \<open>Strings as the script engine reads them\<close>

text \<open>
  A string is a list of characters, one HOL character per UTF-16 code unit of the
  TypeScript string. A HOL character has eight bits, so the embedding covers the
  texts whose code units lie below 256, that is ASCII and Latin-1, and on these the
  classes below are the ones of JavaScript: \<^verbatim>\<open>\s\<close> and \<^verbatim>\<open>trim\<close> know tab, line feed,
  vertical tab, form feed, carriage return, space and the no-break space U+00A0; the
  line terminators of a multi-line regular expression are line feed and carriage
  return; \<^verbatim>\<open>toUpperCase\<close> changes the letters \<open>a\<close> to \<open>z\<close>, the lower-case letters
  of Latin-1 and the micro sign.
\<close>

abbreviation LF :: char where "LF \<equiv> CHR 0x0A"
abbreviation CR :: char where "CR \<equiv> CHR 0x0D"

definition isSpace :: "char \<Rightarrow> bool" where
  "isSpace c = (c \<in> set [CHR 0x09, LF, CHR 0x0B, CHR 0x0C, CR, CHR '' '', CHR 0xA0])"

definition isLineTerminator :: "char \<Rightarrow> bool" where
  "isLineTerminator c = (c = LF \<or> c = CR)"

definition upperAZ :: string where
  "upperAZ = ''ABCDEFGHIJKLMNOPQRSTUVWXYZ''"

definition lowerAZ :: string where
  "lowerAZ = ''abcdefghijklmnopqrstuvwxyz''"

definition isUpperAZ :: "char \<Rightarrow> bool" where
  "isUpperAZ c = (c \<in> set upperAZ)"

definition isAlphaAZ :: "char \<Rightarrow> bool" where
  "isAlphaAZ c = (c \<in> set upperAZ \<or> c \<in> set lowerAZ)"

text \<open>The class \<^verbatim>\<open>[A-Za-z\s]\<close> of the speaker patterns.\<close>

definition isNameChar :: "char \<Rightarrow> bool" where
  "isNameChar c = (isAlphaAZ c \<or> isSpace c)"

text \<open>
  \<^verbatim>\<open>String.prototype.toUpperCase\<close>. The upper-case form of a character can lie beyond
  Latin-1 (the micro sign becomes the Greek capital mu U+039C, \<open>y\<close> with diaeresis
  becomes U+0178) or have two characters (sharp s becomes \<open>SS\<close>), so the result is a
  list of code units as numbers. The source only ever compares it: with the text it
  came from, and with the words of a list.
\<close>

definition upperUnits :: "char \<Rightarrow> nat list" where
  "upperUnits c =
     (let n = of_char c :: nat
      in if 0x61 \<le> n \<and> n \<le> 0x7A then [n - 0x20]
         else if n = 0xB5 then [0x39C]
         else if n = 0xDF then [0x53, 0x53]
         else if n = 0xFF then [0x178]
         else if 0xE0 \<le> n \<and> n \<le> 0xFE \<and> n \<noteq> 0xF7 then [n - 0x20]
         else [n])"

definition toUpperCase :: "string \<Rightarrow> nat list" where
  "toUpperCase s = concat (map upperUnits s)"

definition units :: "string \<Rightarrow> nat list" where
  "units s = map of_char s"

text \<open>
  The flag \<open>i\<close> of a regular expression compares two characters through their
  canonical forms (\<^verbatim>\<open>Canonicalize\<close> of ECMAScript, without the flag \<open>u\<close>): the upper-case
  form of the character when that is a single code unit, and the character itself
  otherwise, or when it lies beyond ASCII and its upper-case form within.
\<close>

definition canonicalize :: "char \<Rightarrow> nat" where
  "canonicalize c =
     (let ch = of_char c :: nat
      in case upperUnits c of
           [cu] \<Rightarrow> if 128 \<le> ch \<and> cu < 128 then ch else cu
         | _ \<Rightarrow> ch)"

definition trim :: "string \<Rightarrow> string" where
  "trim s = rev (dropWhile isSpace (rev (dropWhile isSpace s)))"

text \<open>\<^verbatim>\<open>s.split('\n')\<close>: the pieces between line feeds; the empty string gives one empty piece.\<close>

fun split_nl :: "string \<Rightarrow> string list" where
  "split_nl [] = [[]]"
| "split_nl (c # cs) =
     (if c = LF then [] # split_nl cs
      else (case split_nl cs of [] \<Rightarrow> [[c]] | l # ls \<Rightarrow> (c # l) # ls))"

definition startsWith :: "string \<Rightarrow> string \<Rightarrow> bool" where
  "startsWith s p = (take (length p) s = p)"

definition endsWith :: "string \<Rightarrow> string \<Rightarrow> bool" where
  "endsWith s p = (length p \<le> length s \<and> drop (length s - length p) s = p)"

text \<open>\<^verbatim>\<open>n.toString()\<close> of a counter: the decimal digits of a natural number.\<close>

definition digitChar :: "nat \<Rightarrow> char" where
  "digitChar d = ''0123456789'' ! d"

fun toString :: "nat \<Rightarrow> string" where
  "toString n = (if n < 10 then [digitChar n] else toString (n div 10) @ [digitChar (n mod 10)])"

declare toString.simps [simp del]

section \<open>The regular expressions of the engine\<close>

text \<open>
  Each pattern is a function on the text that starts at the position tried; it gives
  the first capture group when the pattern matches there. None of the classes of a
  pattern contains the character that must follow it, so a greedy repetition can only
  succeed at its longest run and the backtracking of the engine is a \<open>takeWhile\<close>.

  \<^verbatim>\<open>/^([A-Z][A-Za-z\s]+):/\<close>: a capital, the longest run of letters and white space, at
  least one, and a colon right after the run.
\<close>

definition matchNameColon :: "string \<Rightarrow> string option" where
  "matchNameColon s =
     (case s of [] \<Rightarrow> None
      | c # cs \<Rightarrow>
          if isUpperAZ c then
            (let run = takeWhile isNameChar cs; rest = dropWhile isNameChar cs
             in if run \<noteq> [] \<and> startsWith rest '':'' then Some (c # run) else None)
          else None)"

text \<open>
  \<^verbatim>\<open>/^([A-Z][A-Za-z\s]+)\s+\(/\<close>: the parenthesis follows the longest run; the group is
  greedy and \<^verbatim>\<open>\s+\<close> needs one character, so the group leaves the last character of
  the run, which must be white space, and keeps at least one character of the run.
\<close>

definition matchNameParen :: "string \<Rightarrow> string option" where
  "matchNameParen s =
     (case s of [] \<Rightarrow> None
      | c # cs \<Rightarrow>
          if isUpperAZ c then
            (let run = takeWhile isNameChar cs; rest = dropWhile isNameChar cs
             in if 2 \<le> length run \<and> isSpace (last run) \<and> startsWith rest ''(''
                then Some (c # butlast run) else None)
          else None)"

text \<open>
  \<^verbatim>\<open>/^\s*([A-Z]{2,})\s*$/\<close> with the flag \<open>m\<close>: white space, the longest run of capitals,
  two at least, white space, and then the end of the text or a line terminator, which
  the trailing \<^verbatim>\<open>\s*\<close> may stop in front of.
\<close>

definition matchIsolatedUpper :: "string \<Rightarrow> string option" where
  "matchIsolatedUpper s =
     (let s1 = dropWhile isSpace s;
          u = takeWhile isUpperAZ s1;
          r = dropWhile isUpperAZ s1;
          w = takeWhile isSpace r;
          e = dropWhile isSpace r
      in if 2 \<le> length u \<and> (e = [] \<or> list_ex isLineTerminator w) then Some u else None)"

text \<open>
  \<^verbatim>\<open>pattern.exec(line)\<close> from \<^verbatim>\<open>lastIndex = 0\<close> under the flags \<open>gm\<close>: the first position,
  from the left, where the pattern matches; \<^verbatim>\<open>^\<close> holds at the start of the text and
  after a line terminator. The flag says whether the position tried starts a line.
\<close>

fun execFrom :: "(string \<Rightarrow> string option) \<Rightarrow> bool \<Rightarrow> string \<Rightarrow> string option" where
  "execFrom pat atLineStart [] = None"
| "execFrom pat atLineStart (c # cs) =
     (case (if atLineStart then pat (c # cs) else None) of
        Some g \<Rightarrow> Some g
      | None \<Rightarrow> execFrom pat (isLineTerminator c) cs)"

definition exec :: "(string \<Rightarrow> string option) \<Rightarrow> string \<Rightarrow> string option" where
  "exec pat line = execFrom pat True line"

text \<open>
  \<^verbatim>\<open>/^(ATTO|SCENA|ACT|SCENE)\s+([IVX\d]+)/i\<close>, anchored at the start of the line only:
  a keyword in any case, white space, and a first character of the token.
\<close>

definition isMarkerTokenChar :: "char \<Rightarrow> bool" where
  "isMarkerTokenChar c = (canonicalize c \<in> set (map canonicalize ''IVX0123456789''))"

definition startsWithIgnoreCase :: "string \<Rightarrow> string \<Rightarrow> bool" where
  "startsWithIgnoreCase s kw = (map canonicalize (take (length kw) s) = map canonicalize kw)"

definition sceneMarker :: "string \<Rightarrow> bool" where
  "sceneMarker line =
     list_ex (\<lambda>kw. startsWithIgnoreCase line kw \<and>
                (let r = drop (length kw) line; ws = takeWhile isSpace r; t = dropWhile isSpace r
                 in ws \<noteq> [] \<and> (case t of [] \<Rightarrow> False | c # _ \<Rightarrow> isMarkerTokenChar c)))
        [''ATTO'', ''SCENA'', ''ACT'', ''SCENE'']"

text \<open>
  \<^verbatim>\<open>/([^\/\\]+)\.(pdf|txt)$/i\<close> on the first hundred characters: the text ends in the
  extension, and the group is what stands between the last slash or backslash and
  the extension, since the leftmost match wins; the group is not empty.
\<close>

definition fileNameMatch :: "string \<Rightarrow> string option" where
  "fileNameMatch s =
     (let n = length s;
          ext = map canonicalize (drop (n - 4) s);
          stem = take (n - 4) s;
          base = rev (takeWhile (\<lambda>c. c \<noteq> CHR ''/'' \<and> c \<noteq> CHR 0x5C) (rev stem))
      in if 4 \<le> n \<and> (ext = map canonicalize ''.pdf'' \<or> ext = map canonicalize ''.txt'')
            \<and> base \<noteq> []
         then Some base else None)"

section \<open>The data model\<close>

text \<open>
  The interfaces of \<^verbatim>\<open>script.types.ts\<close>. Every \<^verbatim>\<open>id\<close> is a string; the optional
  \<^verbatim>\<open>isDirection\<close> of a line is \<open>None\<close> when the field is left out.
\<close>

record Character =
  char_id :: string
  char_name :: string

record Line =
  line_id :: string
  characterId :: string
  line_text :: string
  sceneId :: string
  isDirection :: "bool option"

record Scene =
  scene_id :: string
  scene_name :: string
  lines :: "Line list"

record Script =
  title :: string
  characters :: "Character list"
  scenes :: "Scene list"

text \<open>Reading a property of \<^verbatim>\<open>undefined\<close> throws a \<^verbatim>\<open>TypeError\<close>.\<close>

datatype jsError = TypeError

text \<open>A loop whose body may throw: the first error ends it.\<close>

fun forEach :: "('s \<Rightarrow> 'a \<Rightarrow> jsError + 's) \<Rightarrow> 's \<Rightarrow> 'a list \<Rightarrow> jsError + 's" where
  "forEach body st [] = Inr st"
| "forEach body st (x # xs) =
     (case body st x of Inl e \<Rightarrow> Inl e | Inr st' \<Rightarrow> forEach body st' xs)"

section \<open>The heuristics of the character recognition service\<close>

text \<open>
  The stop-list of \<^verbatim>\<open>isCommonWord\<close>; its two accented capitals are written by their
  code units. The word is upper-cased and looked up.
\<close>

definition commonWords :: "string list" where
  "commonWords =
     [''IL'', ''LO'', ''LA'', ''I'', ''GLI'', ''LE'', ''UN'', ''UNA'', ''UNO'',
      ''E'', ''O'', ''MA'', ''SE'', ''PERCH'' @ [CHR 0xC9], ''QUINDI'', ''COS'' @ [CHR 0xCC], ''ALLORA'',
      ''ATTO'', ''SCENA'', ''FINE'', ''INIZIO'', ''SIPARIO'', ''ENTRA'', ''ESCE'']"

definition isCommonWord :: "string \<Rightarrow> bool" where
  "isCommonWord word = (toUpperCase word \<in> set (map units commonWords))"

text \<open>
  \<^verbatim>\<open>isSceneDirection\<close>: the line is wrapped in parentheses, or matches
  \<^verbatim>\<open>/^(Entra|Esce|Entra in scena|Esce di scena|Si alza|Si siede)/i\<close>.
\<close>

definition isSceneDirection :: "string \<Rightarrow> bool" where
  "isSceneDirection line =
     (if startsWith line ''('' \<and> endsWith line '')'' then True
      else if list_ex (startsWithIgnoreCase line)
                [''Entra'', ''Esce'', ''Entra in scena'', ''Esce di scena'', ''Si alza'', ''Si siede'']
      then True
      else False)"

text \<open>
  \<^verbatim>\<open>looksLikeDialogue\<close>: the tests of the source in their order; \<^verbatim>\<open>/[.!?]$/\<close> has no
  flag and looks at the last character.
\<close>

definition looksLikeDialogue :: "string \<Rightarrow> bool" where
  "looksLikeDialogue line =
     (if length line < 3 then False
      else if line \<noteq> [] \<and> last line \<in> set ''.!?'' then True
      else if startsWith line ''('' \<or> (toUpperCase line = units line \<and> 10 < length line) then False
      else True)"

subsection \<open>First pass: the speaker catalog\<close>

definition characterPatterns :: "(string \<Rightarrow> string option) list" where
  "characterPatterns = [matchNameColon, matchNameParen, matchIsolatedUpper]"

text \<open>
  What one pattern finds on one line: the trimmed group, kept when it is longer than
  one character and no common word.
\<close>

definition detect :: "string \<Rightarrow> (string \<Rightarrow> string option) \<Rightarrow> string option" where
  "detect line pat =
     (case exec pat line of
        None \<Rightarrow> None
      | Some g \<Rightarrow>
          if g \<noteq> [] then
            (let characterName = trim g
             in if 1 < length characterName \<and> \<not> isCommonWord characterName
                then Some characterName else None)
          else None)"

text \<open>
  \<^verbatim>\<open>characterMentions\<close> is a \<^verbatim>\<open>Map\<close>: its entries stay in the order in which the keys
  were first set, which is what \<open>AList.update\<close> does on an association list.
\<close>

definition mention :: "string \<Rightarrow> (string \<times> nat) list \<Rightarrow> (string \<times> nat) list" where
  "mention characterName m =
     AList.update characterName ((case map_of m characterName of None \<Rightarrow> 0 | Some c \<Rightarrow> c) + 1) m"

definition tallyLine :: "string \<Rightarrow> (string \<times> nat) list \<Rightarrow> (string \<times> nat) list" where
  "tallyLine line m =
     fold (\<lambda>pat m. case detect line pat of None \<Rightarrow> m | Some n \<Rightarrow> mention n m) characterPatterns m"

definition characterMentions :: "string list \<Rightarrow> (string \<times> nat) list" where
  "characterMentions ls = fold tallyLine ls []"

text \<open>
  \<^verbatim>\<open>.filter(count >= 2).sort((a, b) => b[1] - a[1])\<close>. The sort of an array is stable
  (ECMAScript 2019), and so is the insertion sort \<open>sort_key\<close>, here by falling count.
\<close>

definition likelyCharacters :: "string list \<Rightarrow> (string \<times> nat) list" where
  "likelyCharacters ls =
     sort_key (\<lambda>e. - int (snd e)) (filter (\<lambda>e. 2 \<le> snd e) (characterMentions ls))"

text \<open>\<^verbatim>\<open>likelyCharacters.forEach(([name, _], index) => ...)\<close>: the id is the index plus one.\<close>

definition buildCharacters :: "(string \<times> nat) list \<Rightarrow> Character list" where
  "buildCharacters likely =
     map (\<lambda>(index, e). \<lparr>char_id = toString (index + 1), char_name = fst e\<rparr>)
       (zip [0..<length likely] likely)"

subsection \<open>The title\<close>

text \<open>
  The loop of \<^verbatim>\<open>extractScriptTitle\<close> over the first ten lines at most, with the
  candidates collected so far; it stops at the second candidate.
\<close>

fun titleCandidates :: "string list \<Rightarrow> string list \<Rightarrow> string list" where
  "titleCandidates cands [] = cands"
| "titleCandidates cands (l # ls) =
     (let line = trim l
      in if line = [] then titleCandidates cands ls
         else
           (let cands' = (if length line < 60 \<and> CHR '':'' \<notin> set line then cands @ [line] else cands)
            in if 2 \<le> length cands' then cands' else titleCandidates cands' ls))"

definition extractScriptTitle :: "string \<Rightarrow> string list \<Rightarrow> string" where
  "extractScriptTitle rawText ls =
     (let cands = titleCandidates [] (take (min 10 (length ls)) ls)
      in if cands \<noteq> [] then
           (if 1 < length cands \<and> toUpperCase (cands ! 1) = units (cands ! 1)
                \<and> toUpperCase (cands ! 0) \<noteq> units (cands ! 0)
            then cands ! 1 else cands ! 0)
         else
           (case fileNameMatch (take 100 rawText) of
              Some g \<Rightarrow> map (\<lambda>c. if c = CHR ''_'' \<or> c = CHR ''-'' then CHR '' '' else c) g
            | None \<Rightarrow> ''Copione Importato''))"

subsection \<open>Second pass: the segmenter\<close>

text \<open>
  What the second loop changes: \<^verbatim>\<open>script.scenes\<close>, \<^verbatim>\<open>currentCharacterId\<close> (\<open>None\<close> for
  \<^verbatim>\<open>null\<close>) and \<^verbatim>\<open>lineCounter\<close>.
\<close>

record seg_state =
  script_scenes :: "Scene list"
  currentCharacterId :: "string option"
  lineCounter :: nat

text \<open>\<^verbatim>\<open>script.scenes[script.scenes.length - 1]\<close>, whose fields are read right away.\<close>

definition currentScene :: "Scene list \<Rightarrow> jsError + Scene" where
  "currentScene scs = (if scs = [] then Inl TypeError else Inr (last scs))"

text \<open>
  \<^verbatim>\<open>script.scenes[last].lines.push({id: (++lineCounter).toString(), ..., sceneId:
  script.scenes[last].id})\<close>, the one way in which a line is emitted.
\<close>

definition pushLine :: "seg_state \<Rightarrow> string \<Rightarrow> string \<Rightarrow> bool option \<Rightarrow> jsError + seg_state" where
  "pushLine st chId txt dir =
     (case currentScene (script_scenes st) of
        Inl e \<Rightarrow> Inl e
      | Inr sc \<Rightarrow>
          Inr (st\<lparr>lineCounter := lineCounter st + 1,
                  script_scenes := butlast (script_scenes st) @
                    [sc\<lparr>lines := lines sc @
                       [\<lparr>line_id = toString (lineCounter st + 1), characterId = chId,
                         line_text = txt, sceneId = scene_id sc, isDirection = dir\<rparr>]\<rparr>]\<rparr>))"

text \<open>\<^verbatim>\<open>previousLine.text += ' ' + line\<close> on the last line of a scene that has one.\<close>

definition extendLastLine :: "Scene \<Rightarrow> string \<Rightarrow> Scene" where
  "extendLastLine sc line =
     sc\<lparr>lines := butlast (lines sc) @
          [(last (lines sc))\<lparr>line_text := line_text (last (lines sc)) @ '' '' @ line\<rparr>]\<rparr>"

definition openScene :: "seg_state \<Rightarrow> string \<Rightarrow> seg_state" where
  "openScene st line =
     st\<lparr>script_scenes := script_scenes st @
          [\<lparr>scene_id = toString (length (script_scenes st) + 1), scene_name = line, lines = []\<rparr>]\<rparr>"

definition findCharacter :: "Character list \<Rightarrow> string \<Rightarrow> Character option" where
  "findCharacter chars line = find (\<lambda>ch. startsWith line (char_name ch @ '':'')) chars"

text \<open>
  The body of the second loop for one raw line. A string is truthy when it is not
  empty, so \<^verbatim>\<open>currentCharacterId && ...\<close> asks for a speaker with a non-empty id.
\<close>

definition processLine :: "Character list \<Rightarrow> seg_state \<Rightarrow> string \<Rightarrow> jsError + seg_state" where
  "processLine chars st raw =
     (let line = trim raw
      in if line = [] then Inr st
         else if sceneMarker line then Inr (openScene st line)
         else
           (case findCharacter chars line of
              Some characterMatch \<Rightarrow>
                (let st1 = st\<lparr>currentCharacterId := Some (char_id characterMatch)\<rparr>;
                     dialogText = trim (drop (length (char_name characterMatch) + 1) line)
                 in if dialogText \<noteq> [] then pushLine st1 (char_id characterMatch) dialogText None
                    else Inr st1)
            | None \<Rightarrow>
                (case currentCharacterId st of
                   None \<Rightarrow> pushLine st ''0'' line (Some True)
                 | Some cur \<Rightarrow>
                     if cur \<noteq> [] \<and> \<not> isSceneDirection line then
                       (case currentScene (script_scenes st) of
                          Inl e \<Rightarrow> Inl e
                        | Inr previousScene \<Rightarrow>
                            if lines previousScene \<noteq> []
                               \<and> characterId (last (lines previousScene)) = cur
                            then Inr (st\<lparr>script_scenes := butlast (script_scenes st) @
                                          [extendLastLine previousScene line]\<rparr>)
                            else if looksLikeDialogue line then pushLine st cur line None
                            else pushLine st ''0'' line (Some True))
                     else pushLine st ''0'' line (Some True))))"

definition initialState :: seg_state where
  "initialState =
     \<lparr>script_scenes = [\<lparr>scene_id = ''1'', scene_name = ''Scena 1'', lines = []\<rparr>],
      currentCharacterId = None, lineCounter = 0\<rparr>"

definition analyzeScriptText :: "string \<Rightarrow> jsError + Script" where
  "analyzeScriptText rawText =
     (let ls = split_nl rawText;
          chars = buildCharacters (likelyCharacters ls)
      in case forEach (processLine chars) initialState ls of
           Inl e \<Rightarrow> Inl e
         | Inr st \<Rightarrow>
             Inr \<lparr>title = extractScriptTitle rawText ls, characters = chars,
                  scenes = script_scenes st\<rparr>)"

section \<open>The parser service\<close>

text \<open>
  \<^verbatim>\<open>parseScript\<close> keeps one scene. \<^verbatim>\<open>/^([A-Za-z\s]+):/\<close> has no flag: the longest run
  of letters and white space from the start of the line, not empty, and a colon.
\<close>

definition matchSpeaker :: "string \<Rightarrow> string option" where
  "matchSpeaker s =
     (let run = takeWhile isNameChar s; rest = dropWhile isNameChar s
      in if run \<noteq> [] \<and> startsWith rest '':'' then Some run else None)"

definition indexOfColon :: "string \<Rightarrow> nat" where
  "indexOfColon s = length (takeWhile (\<lambda>c. c \<noteq> CHR '':'') s)"

text \<open>
  The state of the loop over the lines: \<^verbatim>\<open>script.characters\<close> (the values of
  \<^verbatim>\<open>characterMap\<close>, in the same order, so one list stands for both),
  \<^verbatim>\<open>currentCharacter\<close>, \<^verbatim>\<open>lineCounter\<close> and \<^verbatim>\<open>script.scenes[0].lines\<close>.
\<close>

record parse_state =
  p_characters :: "Character list"
  p_currentCharacter :: "string option"
  p_lineCounter :: nat
  p_lines :: "Line list"

text \<open>
  The body of \<^verbatim>\<open>textLines.forEach\<close>. Two reads can throw: the \<^verbatim>\<open>id\<close> of
  \<^verbatim>\<open>characterMap.get(currentCharacter)\<close>, and the \<^verbatim>\<open>text\<close> of
  \<^verbatim>\<open>lines[lines.length - 1]\<close> in the continuation branch, which the source reads
  without a test on the length.
\<close>

definition parseLine :: "parse_state \<Rightarrow> string \<Rightarrow> jsError + parse_state" where
  "parseLine st textLine =
     (case matchSpeaker textLine of
        Some g \<Rightarrow>
          (let cur = trim g;
               chars = (if cur \<in> set (map char_name (p_characters st)) then p_characters st
                        else p_characters st @
                          [\<lparr>char_id = toString (length (p_characters st) + 1), char_name = cur\<rparr>]);
               st1 = st\<lparr>p_characters := chars, p_currentCharacter := Some cur\<rparr>;
               dialogText = trim (drop (indexOfColon textLine + 1) textLine)
           in if dialogText \<noteq> [] then
                (case find (\<lambda>ch. char_name ch = cur) chars of
                   None \<Rightarrow> Inl TypeError
                 | Some ch \<Rightarrow>
                     Inr (st1\<lparr>p_lineCounter := p_lineCounter st + 1,
                              p_lines := p_lines st @
                                [\<lparr>line_id = toString (p_lineCounter st + 1), characterId = char_id ch,
                                  line_text = dialogText, sceneId = ''1'', isDirection = None\<rparr>]\<rparr>))
              else Inr st1)
      | None \<Rightarrow>
          if (case p_currentCharacter st of None \<Rightarrow> False | Some cur \<Rightarrow> cur \<noteq> [])
             \<and> textLine \<noteq> [] then
            (if p_lines st = [] then Inl TypeError
             else Inr (st\<lparr>p_lines := butlast (p_lines st) @
                        [(last (p_lines st))\<lparr>line_text :=
                            line_text (last (p_lines st)) @ '' '' @ textLine\<rparr>]\<rparr>))
          else if textLine \<noteq> [] then
            Inr (st\<lparr>p_lineCounter := p_lineCounter st + 1,
                    p_lines := p_lines st @
                      [\<lparr>line_id = toString (p_lineCounter st + 1), characterId = ''0'',
                        line_text = textLine, sceneId = ''1'', isDirection = Some True\<rparr>]\<rparr>)
          else Inr st)"

text \<open>
  The lines are trimmed and the empty ones dropped; a first line without a colon is the
  title and is taken off the list (\<^verbatim>\<open>textLines.shift()\<close>).
\<close>

definition parseScript :: "string \<Rightarrow> jsError + Script" where
  "parseScript rawText =
     (let textLines = filter (\<lambda>l. l \<noteq> []) (map trim (split_nl rawText));
          shifted = (textLines \<noteq> [] \<and> CHR '':'' \<notin> set (hd textLines))
      in case forEach parseLine
                \<lparr>p_characters = [], p_currentCharacter = None, p_lineCounter = 0, p_lines = []\<rparr>
                (if shifted then tl textLines else textLines) of
           Inl e \<Rightarrow> Inl e
         | Inr st \<Rightarrow>
             Inr \<lparr>title = (if shifted then hd textLines else []),
                  characters = p_characters st,
                  scenes = [\<lparr>scene_id = ''1'', scene_name = ''Scene 1'', lines = p_lines st\<rparr>]\<rparr>)"

section \<open>The structure estimator of the PDF extraction module\<close>

text \<open>
  \<^verbatim>\<open>extractedText.match(/^[A-Z][A-Za-z\s]+:/gm) || []\<close>: every match from the left, each
  starting where a line starts and the next one sought after the colon of the last.
\<close>

fun matchAll :: "bool \<Rightarrow> string \<Rightarrow> string list" where
  "matchAll atLineStart [] = []"
| "matchAll atLineStart (c # cs) =
     (case (if atLineStart then matchNameColon (c # cs) else None) of
        Some g \<Rightarrow> (g @ '':'') # matchAll False (drop (length g) cs)
      | None \<Rightarrow> matchAll (isLineTerminator c) cs)"

text \<open>A \<^verbatim>\<open>Set\<close> keeps its elements in the order in which they were first added.\<close>

definition setAdd :: "'a \<Rightarrow> 'a list \<Rightarrow> 'a list" where
  "setAdd x s = (if x \<in> set s then s else s @ [x])"

record structure_info =
  isLikelyScript :: bool
  characterCount :: nat
  characterNames :: "string list"
  dialogueLines :: nat

definition detectScriptStructure :: "string \<Rightarrow> structure_info" where
  "detectScriptStructure extractedText =
     (let characterMatches = matchAll True extractedText;
          chars = fold (\<lambda>m s. setAdd (trim (butlast m)) s) characterMatches []
      in \<lparr>isLikelyScript = (3 < length characterMatches \<and> 2 \<le> length chars),
          characterCount = length chars,
          characterNames = chars,
          dialogueLines = length characterMatches\<rparr>)"

section \<open>Notions the properties are stated with\<close>

text \<open>The lines of a script in document order, across all scenes.\<close>

definition allLines :: "Scene list \<Rightarrow> Line list" where
  "allLines scs = concat (map lines scs)"

subsection \<open>Invariants of the segmenter's state\<close>

text \<open>The ids of the lines emitted so far are the counters from one to the current one.\<close>

definition idsInOrder :: "seg_state \<Rightarrow> bool" where
  "idsInOrder st =
     (map line_id (allLines (script_scenes st)) = map toString [1..<Suc (lineCounter st)])"

text \<open>Every line, and the current speaker, carries the sentinel or the id of a cataloged character.\<close>

definition knownSpeakers :: "Character list \<Rightarrow> seg_state \<Rightarrow> bool" where
  "knownSpeakers chars st =
     (list_all (\<lambda>l. characterId l = ''0'' \<or> characterId l \<in> set (map char_id chars))
        (allLines (script_scenes st))
      \<and> (case currentCharacterId st of None \<Rightarrow> True | Some c \<Rightarrow> c \<in> set (map char_id chars)))"

text \<open>The degenerate script: no speaker yet, and every line a stage direction under \<open>''0''\<close>.\<close>

definition allDirections :: "seg_state \<Rightarrow> bool" where
  "allDirections st =
     (list_all (\<lambda>l. characterId l = ''0'' \<and> isDirection l = Some True) (allLines (script_scenes st))
      \<and> currentCharacterId st = None)"

text \<open>Every text is not empty and is its own trimmed form.\<close>

definition textsTrimmed :: "seg_state \<Rightarrow> bool" where
  "textsTrimmed st =
     list_all (\<lambda>l. line_text l \<noteq> [] \<and> trim (line_text l) = line_text l) (allLines (script_scenes st))"

text \<open>The ids of the scenes are the decimal strings of one, two and so on, in their order.\<close>

definition sceneIdsInOrder :: "seg_state \<Rightarrow> bool" where
  "sceneIdsInOrder st =
     (map scene_id (script_scenes st) = map toString [1..<Suc (length (script_scenes st))])"

subsection \<open>Collapsed white space, continuation lines\<close>

text \<open>
  A text in which every run of white space is a single space: each white space
  character is a space, and the character after it is none.
\<close>

fun whitespaceCollapsed :: "string \<Rightarrow> bool" where
  "whitespaceCollapsed (c # d # cs) =
     ((if isSpace c then c = CHR '' '' \<and> \<not> isSpace d else True) \<and> whitespaceCollapsed (d # cs))"
| "whitespaceCollapsed [c] = (if isSpace c then c = CHR '' '' else True)"
| "whitespaceCollapsed [] = True"

text \<open>
  What a text is made of. Pieces are joined by single spaces. A piece of the input is a
  text that is not empty and is its own trimmed form, and that stands, character by
  character, somewhere in one of the lines of the input.
\<close>

fun joinSpace :: "string list \<Rightarrow> string" where
  "joinSpace [] = []"
| "joinSpace [p] = p"
| "joinSpace (p # q # ps) = p @ '' '' @ joinSpace (q # ps)"

fun occursIn :: "string \<Rightarrow> string \<Rightarrow> bool" where
  "occursIn p [] = (p = [])"
| "occursIn p (c # cs) = (startsWith (c # cs) p \<or> occursIn p cs)"

definition pieceOfInput :: "string list \<Rightarrow> string \<Rightarrow> bool" where
  "pieceOfInput ls p = (p \<noteq> [] \<and> trim p = p \<and> list_ex (occursIn p) ls)"

text \<open>
  A raw line that reaches the continuation branch of the segmenter: not blank, no
  scene or act marker, no cataloged speaker in front, and no stage direction by the
  heuristic.
\<close>

definition continuationLine :: "Character list \<Rightarrow> string \<Rightarrow> bool" where
  "continuationLine chars raw =
     (trim raw \<noteq> [] \<and> \<not> sceneMarker (trim raw) \<and> findCharacter chars (trim raw) = None
      \<and> \<not> isSceneDirection (trim raw))"

text \<open>The state in which the last line of the current scene has the text \<open>t\<close> appended.\<close>

definition appendToLastLine :: "seg_state \<Rightarrow> string \<Rightarrow> seg_state" where
  "appendToLastLine st t =
     st\<lparr>script_scenes := butlast (script_scenes st) @
          [(last (script_scenes st))\<lparr>lines := butlast (lines (last (script_scenes st))) @
             [(last (lines (last (script_scenes st))))\<lparr>line_text :=
                 line_text (last (lines (last (script_scenes st)))) @ t\<rparr>]\<rparr>]\<rparr>"

subsection \<open>The title rule in the words of the specification\<close>

text \<open>
  A candidate is a trimmed line that is not empty, shorter than 60 characters and free
  of colons. A text is entirely uppercase when it has no lower-case letter, that is no
  letter with an upper-case form of its own: \<open>a\<close> to \<open>z\<close>, the micro sign, sharp s
  and the lower-case letters of Latin-1 (U+00E0 to U+00FF without the division sign).
\<close>

definition titleCandidate :: "string \<Rightarrow> bool" where
  "titleCandidate line = (line \<noteq> [] \<and> length line < 60 \<and> CHR '':'' \<notin> set line)"

definition lowerCaseLetter :: "char \<Rightarrow> bool" where
  "lowerCaseLetter c =
     (let n = of_char c :: nat
      in (0x61 \<le> n \<and> n \<le> 0x7A) \<or> n = 0xB5 \<or> (0xDF \<le> n \<and> n \<noteq> 0xF7))"

definition entirelyUppercase :: "string \<Rightarrow> bool" where
  "entirelyUppercase s = (\<not> list_ex lowerCaseLetter s)"

text \<open>
  The file name a text ends in: the text has a last segment, what follows its last
  slash or backslash, and this segment is a name, not empty, before one of the
  extensions \<^verbatim>\<open>.pdf\<close> and \<^verbatim>\<open>.txt\<close> in any case, each letter of the extension being
  written in lower or in upper case. The title made of it has a space wherever the name
  has an underscore or a hyphen.
\<close>

definition notSlash :: "char \<Rightarrow> bool" where
  "notSlash c = (c \<noteq> CHR ''/'' \<and> c \<noteq> CHR 0x5C)"

definition lastSegment :: "string \<Rightarrow> string" where
  "lastSegment s = rev (takeWhile notSlash (rev s))"

definition sameLetter :: "char \<Rightarrow> char \<Rightarrow> bool" where
  "sameLetter x y =
     (x = y \<or> (x, y) \<in> set (zip lowerAZ upperAZ) \<or> (y, x) \<in> set (zip lowerAZ upperAZ))"

definition sameIgnoringCase :: "string \<Rightarrow> string \<Rightarrow> bool" where
  "sameIgnoringCase a b = list_all2 sameLetter a b"

definition fileNameStem :: "string \<Rightarrow> string option" where
  "fileNameStem s =
     (let seg = lastSegment s; k = length seg - 4; ext = drop k seg
      in if 4 < length seg \<and> (sameIgnoringCase ext ''.pdf'' \<or> sameIgnoringCase ext ''.txt'')
         then Some (take k seg) else None)"

definition separatorsToSpaces :: "string \<Rightarrow> string" where
  "separatorsToSpaces g = map (\<lambda>c. if c = CHR ''_'' \<or> c = CHR ''-'' then CHR '' '' else c) g"

text \<open>
  The rule: the first two candidates among the first ten lines decide; without a
  candidate the file name that the first hundred characters end in, and without one the
  fixed title. \<open>extractScriptTitle\<close>, the loop of the source with its regular
  expression and its upper-case comparisons, is compared with it below.
\<close>

definition chooseTitle :: "string \<Rightarrow> string list \<Rightarrow> string" where
  "chooseTitle rawText ls =
     (case take 2 (filter titleCandidate (map trim (take 10 ls))) of
        [] \<Rightarrow> (case fileNameStem (take 100 rawText) of
                 Some g \<Rightarrow> separatorsToSpaces g
               | None \<Rightarrow> ''Copione Importato'')
      | [a] \<Rightarrow> a
      | a # b # _ \<Rightarrow> if entirelyUppercase b \<and> \<not> entirelyUppercase a then b else a)"

subsection \<open>The tally of the catalog in the words of the specification\<close>

text \<open>
  The names detected in the document, in order: line by line, and on each line pattern
  by pattern, every detection that survives the length and common-word filter. The
  tally of a name is the number of its detections; \<open>firstSeen\<close> is the position of
  its first detection.
\<close>

definition detectedNames :: "string list \<Rightarrow> string list" where
  "detectedNames ls = concat (map (\<lambda>line. List.map_filter (detect line) characterPatterns) ls)"

definition tally :: "string list \<Rightarrow> string \<Rightarrow> nat" where
  "tally ls n = count_list (detectedNames ls) n"

definition firstIndex :: "'a list \<Rightarrow> 'a \<Rightarrow> nat" where
  "firstIndex ds n = length (takeWhile (\<lambda>d. d \<noteq> n) ds)"

definition firstSeen :: "string list \<Rightarrow> string \<Rightarrow> nat" where
  "firstSeen ls n = firstIndex (detectedNames ls) n"

text \<open>How often a name is written in a text: the positions at which the text goes on with it.\<close>

fun occurrences :: "string \<Rightarrow> string \<Rightarrow> nat" where
  "occurrences n [] = (if n = [] then 1 else 0)"
| "occurrences n (c # cs) = (if startsWith (c # cs) n then 1 else 0) + occurrences n cs"

section \<open>Loops and the cases of a step\<close>

lemma forEach_invariant:
  assumes "I st" and "\<And>s x. I s \<Longrightarrow> \<exists>s'. body s x = Inr s' \<and> I s'"
  shows "\<exists>s'. forEach body st xs = Inr s' \<and> I s'"
  using assms(1)
proof (induction xs arbitrary: st)
  case Nil
  then show ?case by simp
next
  case (Cons x xs)
  from assms(2)[OF Cons.prems] obtain s1 where s1: "body st x = Inr s1" "I s1" by blast
  from Cons.IH[OF s1(2)] s1(1) show ?case by simp
qed

lemma forEach_invariant_mem:
  assumes "I st" and "\<And>s x. x \<in> set xs \<Longrightarrow> I s \<Longrightarrow> \<exists>s'. body s x = Inr s' \<and> I s'"
  shows "\<exists>s'. forEach body st xs = Inr s' \<and> I s'"
  using assms
proof (induction xs arbitrary: st)
  case Nil
  then show ?case by simp
next
  case (Cons x xs)
  from Cons.prems(2)[of x, OF _ Cons.prems(1)] obtain s1 where s1: "body st x = Inr s1" "I s1"
    by auto
  have "\<exists>s'. forEach body s1 xs = Inr s' \<and> I s'"
    by (rule Cons.IH[OF s1(2)]) (use Cons.prems(2) in auto)
  then show ?case using s1(1) by simp
qed

lemma pushLine_Inr:
  assumes "script_scenes st \<noteq> []"
  shows "pushLine st c t d =
     Inr (st\<lparr>lineCounter := lineCounter st + 1,
             script_scenes := butlast (script_scenes st) @
               [(last (script_scenes st))\<lparr>lines := lines (last (script_scenes st)) @
                  [\<lparr>line_id = toString (lineCounter st + 1), characterId = c,
                    line_text = t, sceneId = scene_id (last (script_scenes st)), isDirection = d\<rparr>]\<rparr>]\<rparr>)"
  using assms by (simp add: pushLine_def currentScene_def)

lemma processLine_cases:
  assumes ne: "script_scenes st \<noteq> []"
  obtains
    (skip) "trim raw = []" "processLine chars st raw = Inr st"
  | (marker) "trim raw \<noteq> []" "sceneMarker (trim raw)"
      "processLine chars st raw = Inr (openScene st (trim raw))"
  | (cue) ch where "ch \<in> set chars"
      "processLine chars st raw = Inr (st\<lparr>currentCharacterId := Some (char_id ch)\<rparr>)"
  | (speak) ch where "ch \<in> set chars"
      "trim (drop (length (char_name ch) + 1) (trim raw)) \<noteq> []"
      "processLine chars st raw =
         pushLine (st\<lparr>currentCharacterId := Some (char_id ch)\<rparr>) (char_id ch)
           (trim (drop (length (char_name ch) + 1) (trim raw))) None"
  | (merge) cur where "trim raw \<noteq> []" "currentCharacterId st = Some cur"
      "lines (last (script_scenes st)) \<noteq> []"
      "characterId (last (lines (last (script_scenes st)))) = cur"
      "processLine chars st raw =
         Inr (st\<lparr>script_scenes := butlast (script_scenes st) @
                 [extendLastLine (last (script_scenes st)) (trim raw)]\<rparr>)"
  | (dialogue) cur where "trim raw \<noteq> []" "currentCharacterId st = Some cur"
      "processLine chars st raw = pushLine st cur (trim raw) None"
  | (direction) "trim raw \<noteq> []"
      "processLine chars st raw = pushLine st ''0'' (trim raw) (Some True)"
proof (cases "trim raw = []")
  case True
  then show ?thesis using skip by (simp add: processLine_def)
next
  case nonblank: False
  show ?thesis
  proof (cases "sceneMarker (trim raw)")
    case True
    then show ?thesis using marker nonblank by (simp add: processLine_def)
  next
    case nomarker: False
    show ?thesis
    proof (cases "findCharacter chars (trim raw)")
      case (Some ch)
      then have "ch \<in> set chars"
        by (auto simp: findCharacter_def find_Some_iff)
      then show ?thesis
        using Some nonblank nomarker cue[of ch] speak[of ch]
        by (cases "trim (drop (length (char_name ch) + 1) (trim raw)) = []")
           (simp_all add: processLine_def Let_def)
    next
      case None
      show ?thesis
      proof (cases "currentCharacterId st")
        case nocur: None
        then show ?thesis using None nonblank nomarker direction
          by (simp add: processLine_def)
      next
        case (Some cur)
        have pl: "processLine chars st raw =
            (if cur \<noteq> [] \<and> \<not> isSceneDirection (trim raw) then
               (if lines (last (script_scenes st)) \<noteq> []
                   \<and> characterId (last (lines (last (script_scenes st)))) = cur
                then Inr (st\<lparr>script_scenes := butlast (script_scenes st) @
                           [extendLastLine (last (script_scenes st)) (trim raw)]\<rparr>)
                else if looksLikeDialogue (trim raw) then pushLine st cur (trim raw) None
                else pushLine st ''0'' (trim raw) (Some True))
             else pushLine st ''0'' (trim raw) (Some True))"
          using Some None nonblank nomarker ne
          by (simp add: processLine_def currentScene_def Let_def)
        show ?thesis
        proof (cases "cur \<noteq> [] \<and> \<not> isSceneDirection (trim raw)")
          case False
          then have "processLine chars st raw = pushLine st ''0'' (trim raw) (Some True)"
            using pl by auto
          then show ?thesis by (rule direction[OF nonblank])
        next
          case speaking: True
          show ?thesis
          proof (cases "lines (last (script_scenes st)) \<noteq> []
                   \<and> characterId (last (lines (last (script_scenes st)))) = cur")
            case True
            then have "processLine chars st raw =
                Inr (st\<lparr>script_scenes := butlast (script_scenes st) @
                           [extendLastLine (last (script_scenes st)) (trim raw)]\<rparr>)"
              using pl speaking by auto
            then show ?thesis using merge[OF nonblank Some] True by blast
          next
            case False
            show ?thesis
            proof (cases "looksLikeDialogue (trim raw)")
              case True
              then have "processLine chars st raw = pushLine st cur (trim raw) None"
                using pl speaking False by auto
              then show ?thesis by (rule dialogue[OF nonblank Some])
            next
              case nodialogue: False
              then have "processLine chars st raw = pushLine st ''0'' (trim raw) (Some True)"
                using pl speaking False by auto
              then show ?thesis by (rule direction[OF nonblank])
            qed
          qed
        qed
      qed
    qed
  qed
qed

section \<open>Facts about trimming\<close>

lemma last_dropWhile: "dropWhile P xs \<noteq> [] \<Longrightarrow> last (dropWhile P xs) = last xs"
  by (metis last_appendR takeWhile_dropWhile_id)

lemma trim_ends:
  assumes "trim s \<noteq> []"
  shows "\<not> isSpace (hd (trim s))" and "\<not> isSpace (last (trim s))"
proof -
  let ?d = "dropWhile isSpace s"
  let ?X = "dropWhile isSpace (rev ?d)"
  have X: "?X \<noteq> []" using assms unfolding trim_def by (simp only: rev_is_Nil_conv not_False_eq_True)
  have d: "?d \<noteq> []"
    using X by (metis dropWhile.simps(1) rev.simps(1))
  have "last (trim s) = hd ?X" using X by (simp add: trim_def last_rev)
  then show "\<not> isSpace (last (trim s))" using X hd_dropWhile[of isSpace "rev ?d"] by simp
  have "hd (trim s) = last ?X" using X by (simp add: trim_def hd_rev)
  also have "\<dots> = last (rev ?d)" using X by (rule last_dropWhile)
  also have "\<dots> = hd ?d" using d by (simp add: last_rev)
  finally show "\<not> isSpace (hd (trim s))" using d hd_dropWhile[of isSpace s] by simp
qed

lemma trim_self:
  assumes "t \<noteq> []" "\<not> isSpace (hd t)" "\<not> isSpace (last t)"
  shows "trim t = t"
proof -
  have "dropWhile isSpace t = t" using assms by (simp add: dropWhile_eq_self_iff)
  moreover have "dropWhile isSpace (rev t) = rev t"
    using assms by (simp add: dropWhile_eq_self_iff hd_rev)
  ultimately show ?thesis by (simp add: trim_def)
qed

lemma trim_idem: "trim (trim s) = trim s"
proof (cases "trim s = []")
  case True
  have "trim [] = []" by (simp add: trim_def)
  then show ?thesis using True by simp
next
  case False
  then show ?thesis using trim_ends[of s] by (simp add: trim_self)
qed

lemma trim_join:
  assumes "trim a = a" "a \<noteq> []" "trim b = b" "b \<noteq> []"
  shows "trim (a @ '' '' @ b) = a @ '' '' @ b"
proof (rule trim_self)
  show "a @ '' '' @ b \<noteq> []" using assms by simp
  show "\<not> isSpace (hd (a @ '' '' @ b))" using assms trim_ends(1)[of a] by simp
  show "\<not> isSpace (last (a @ '' '' @ b))" using assms trim_ends(2)[of b] by simp
qed

lemma joinSpace_snoc: "ps \<noteq> [] \<Longrightarrow> joinSpace (ps @ [p]) = joinSpace ps @ '' '' @ p"
  by (induction ps rule: joinSpace.induct) simp_all

lemma occursIn_infix: "occursIn p (a @ p @ b)"
proof (induction a)
  case Nil
  show ?case
  proof (cases "p @ b")
    case Nil
    then show ?thesis by simp
  next
    case (Cons c cs)
    have "take (length p) (p @ b) = p" by simp
    then have "startsWith (c # cs) p" unfolding startsWith_def Cons .
    then show ?thesis using Cons by simp
  qed
next
  case (Cons x a)
  then show ?case by simp
qed

lemma trim_infix: "\<exists>a b. s = a @ trim s @ b"
proof -
  let ?d = "dropWhile isSpace s"
  have "rev ?d = takeWhile isSpace (rev ?d) @ dropWhile isSpace (rev ?d)" by simp
  then have "rev (rev ?d) = rev (takeWhile isSpace (rev ?d) @ dropWhile isSpace (rev ?d))"
    by (rule arg_cong)
  then have "?d = rev (dropWhile isSpace (rev ?d)) @ rev (takeWhile isSpace (rev ?d))"
    by (simp only: rev_append rev_rev_ident)
  then have "?d = trim s @ rev (takeWhile isSpace (rev ?d))"
    by (simp only: trim_def)
  moreover have "s = takeWhile isSpace s @ ?d" by simp
  ultimately have "s = takeWhile isSpace s @ trim s @ rev (takeWhile isSpace (rev ?d))"
    by simp
  then show ?thesis by blast
qed

lemma occursIn_trim_drop: "occursIn (trim (drop k (trim raw))) raw"
proof -
  obtain a b where r: "raw = a @ trim raw @ b" using trim_infix by blast
  obtain a' b' where d: "drop k (trim raw) = a' @ trim (drop k (trim raw)) @ b'"
    using trim_infix by blast
  have "trim raw = take k (trim raw) @ drop k (trim raw)" by simp
  then have "trim raw = take k (trim raw) @ a' @ trim (drop k (trim raw)) @ b'"
    using d by simp
  then have "raw = (a @ take k (trim raw) @ a') @ trim (drop k (trim raw)) @ (b' @ b)"
    using r by (metis append.assoc)
  then show ?thesis using occursIn_infix by metis
qed

lemma occursIn_trim: "occursIn (trim raw) raw"
  using occursIn_trim_drop[of 0 raw] by (simp add: trim_idem)

section \<open>One step of the segmenter\<close>

lemma allLines_snoc: "allLines (ss @ [s]) = allLines ss @ lines s"
  by (simp add: allLines_def)

lemma allLines_push:
  assumes "scs \<noteq> []"
  shows "allLines (butlast scs @ [(last scs)\<lparr>lines := lines (last scs) @ [l]\<rparr>]) = allLines scs @ [l]"
proof -
  have "allLines scs = allLines (butlast scs) @ lines (last scs)"
    using assms allLines_snoc[of "butlast scs" "last scs"] by simp
  then show ?thesis by (simp add: allLines_snoc)
qed

lemma allLines_extend:
  assumes "scs \<noteq> []" and "lines (last scs) \<noteq> []"
  shows "allLines (butlast scs @ [extendLastLine (last scs) t]) =
         butlast (allLines scs) @
           [(last (allLines scs))\<lparr>line_text := line_text (last (allLines scs)) @ '' '' @ t\<rparr>]"
    and "last (allLines scs) = last (lines (last scs))"
    and "allLines scs \<noteq> []"
proof -
  have eq: "allLines scs = allLines (butlast scs) @ lines (last scs)"
    using assms(1) allLines_snoc[of "butlast scs" "last scs"] by simp
  show l: "last (allLines scs) = last (lines (last scs))"
    using assms(2) by (simp add: eq)
  show "allLines scs \<noteq> []" using assms(2) by (simp add: eq)
  show "allLines (butlast scs @ [extendLastLine (last scs) t]) =
         butlast (allLines scs) @
           [(last (allLines scs))\<lparr>line_text := line_text (last (allLines scs)) @ '' '' @ t\<rparr>]"
    unfolding l using assms(2) by (simp add: eq allLines_snoc extendLastLine_def butlast_append)
qed

lemma allLines_open: "allLines (script_scenes (openScene st line)) = allLines (script_scenes st)"
  by (simp add: openScene_def allLines_snoc)

lemma pushLine_effect:
  assumes "script_scenes st \<noteq> []"
  obtains st' where "pushLine st c t d = Inr st'"
    "script_scenes st' \<noteq> []"
    "length (script_scenes st') = length (script_scenes st)"
    "butlast (script_scenes st') = butlast (script_scenes st)"
    "lineCounter st' = lineCounter st + 1"
    "currentCharacterId st' = currentCharacterId st"
    "allLines (script_scenes st') = allLines (script_scenes st) @
       [\<lparr>line_id = toString (lineCounter st + 1), characterId = c, line_text = t,
         sceneId = scene_id (last (script_scenes st)), isDirection = d\<rparr>]"
  using assms by (simp add: pushLine_Inr allLines_push)

text \<open>What one step does to the flat list of lines, the counter and the speaker.\<close>

lemma step_effect:
  assumes ne: "script_scenes st \<noteq> []"
  obtains
    (same) st' where "processLine chars st raw = Inr st'" "script_scenes st' \<noteq> []"
      "allLines (script_scenes st') = allLines (script_scenes st)"
      "lineCounter st' = lineCounter st"
      "currentCharacterId st' = currentCharacterId st
       \<or> (\<exists>ch \<in> set chars. currentCharacterId st' = Some (char_id ch))"
  | (push) st' l where "processLine chars st raw = Inr st'" "script_scenes st' \<noteq> []"
      "allLines (script_scenes st') = allLines (script_scenes st) @ [l]"
      "lineCounter st' = lineCounter st + 1"
      "line_id l = toString (lineCounter st + 1)"
      "line_text l \<noteq> []" "trim (line_text l) = line_text l"
      "(characterId l = ''0'' \<and> isDirection l = Some True
          \<and> currentCharacterId st' = currentCharacterId st)
       \<or> (\<exists>ch \<in> set chars. characterId l = char_id ch \<and> currentCharacterId st' = Some (char_id ch))
       \<or> (currentCharacterId st = Some (characterId l)
          \<and> currentCharacterId st' = currentCharacterId st)"
  | (merge) st' where "processLine chars st raw = Inr st'" "script_scenes st' \<noteq> []"
      "allLines (script_scenes st) \<noteq> []" "trim raw \<noteq> []"
      "allLines (script_scenes st') = butlast (allLines (script_scenes st)) @
         [(last (allLines (script_scenes st)))\<lparr>line_text :=
             line_text (last (allLines (script_scenes st))) @ '' '' @ trim raw\<rparr>]"
      "lineCounter st' = lineCounter st"
      "currentCharacterId st' = currentCharacterId st"
      "currentCharacterId st = Some (characterId (last (allLines (script_scenes st))))"
  using ne
proof (cases rule: processLine_cases[where raw = raw and chars = chars])
  case skip
  show ?thesis by (rule same[OF skip(2)]) (use ne in simp_all)
next
  case marker
  show ?thesis
    by (rule same[OF marker(3)]) (simp_all add: allLines_open, simp_all add: openScene_def)
next
  case (cue ch)
  show ?thesis
    by (rule same[OF cue(2)]) (use ne cue(1) in auto)
next
  case (speak ch)
  let ?st1 = "st\<lparr>currentCharacterId := Some (char_id ch)\<rparr>"
  have ne1: "script_scenes ?st1 \<noteq> []" using ne by simp
  from pushLine_effect[OF ne1] obtain st' where p:
    "pushLine ?st1 (char_id ch) (trim (drop (length (char_name ch) + 1) (trim raw))) None = Inr st'"
    "script_scenes st' \<noteq> []" "lineCounter st' = lineCounter ?st1 + 1"
    "currentCharacterId st' = currentCharacterId ?st1"
    "allLines (script_scenes st') = allLines (script_scenes ?st1) @
       [\<lparr>line_id = toString (lineCounter ?st1 + 1), characterId = char_id ch,
         line_text = trim (drop (length (char_name ch) + 1) (trim raw)),
         sceneId = scene_id (last (script_scenes ?st1)), isDirection = None\<rparr>]"
    by metis
  have pl: "processLine chars st raw = Inr st'" using speak(3) p(1) by simp
  show ?thesis
    by (rule push[OF pl p(2)]) (use p speak in \<open>auto simp: trim_idem\<close>)
next
  case (merge cur)
  show ?thesis
    by (rule that(3)[OF merge(5)])
       (use merge ne allLines_extend(1)[OF ne merge(3), of "trim raw"]
          allLines_extend(2,3)[OF ne merge(3)] in simp_all)
next
  case (dialogue cur)
  from pushLine_effect[OF ne] obtain st' where p:
    "pushLine st cur (trim raw) None = Inr st'"
    "script_scenes st' \<noteq> []" "lineCounter st' = lineCounter st + 1"
    "currentCharacterId st' = currentCharacterId st"
    "allLines (script_scenes st') = allLines (script_scenes st) @
       [\<lparr>line_id = toString (lineCounter st + 1), characterId = cur,
         line_text = trim raw,
         sceneId = scene_id (last (script_scenes st)), isDirection = None\<rparr>]"
    by metis
  have pl: "processLine chars st raw = Inr st'" using dialogue(3) p(1) by simp
  show ?thesis
    by (rule push[OF pl p(2)]) (use p dialogue in \<open>auto simp: trim_idem\<close>)
next
  case direction
  from pushLine_effect[OF ne] obtain st' where p:
    "pushLine st ''0'' (trim raw) (Some True) = Inr st'"
    "script_scenes st' \<noteq> []" "lineCounter st' = lineCounter st + 1"
    "currentCharacterId st' = currentCharacterId st"
    "allLines (script_scenes st') = allLines (script_scenes st) @
       [\<lparr>line_id = toString (lineCounter st + 1), characterId = ''0'',
         line_text = trim raw,
         sceneId = scene_id (last (script_scenes st)), isDirection = Some True\<rparr>]"
    by metis
  have pl: "processLine chars st raw = Inr st'" using direction(2) p(1) by simp
  show ?thesis
    by (rule push[OF pl p(2)]) (use p direction in \<open>auto simp: trim_idem\<close>)
qed

section \<open>Invariants of a run\<close>

lemma toString_nonempty: "toString n \<noteq> []"
  by (subst toString.simps) simp

lemma digitChar_zero: "d < 10 \<Longrightarrow> digitChar d = CHR ''0'' \<longleftrightarrow> d = 0"
proof -
  have "\<forall>d \<in> set [0..<10]. digitChar d = CHR ''0'' \<longleftrightarrow> d = 0" by code_simp
  then show "d < 10 \<Longrightarrow> digitChar d = CHR ''0'' \<longleftrightarrow> d = 0" by simp
qed

lemma toString_zero_iff: "toString n = ''0'' \<longleftrightarrow> n = 0"
proof (cases "n < 10")
  case True
  then show ?thesis using digitChar_zero[of n] by (subst toString.simps) simp
next
  case False
  have "length (toString n) = length (toString (n div 10)) + 1"
    using False by (subst toString.simps) simp
  then have "length (toString n) \<noteq> 1" using toString_nonempty[of "n div 10"] by simp
  then show ?thesis using False by auto
qed

lemma run_invariant:
  fixes rawText
  defines "chars \<equiv> buildCharacters (likelyCharacters (split_nl rawText))"
  assumes init: "I initialState"
    and step: "\<And>st raw st'. script_scenes st \<noteq> [] \<Longrightarrow> I st \<Longrightarrow>
                 processLine chars st raw = Inr st' \<Longrightarrow> I st'"
  shows "\<exists>st. analyzeScriptText rawText =
            Inr \<lparr>title = extractScriptTitle rawText (split_nl rawText), characters = chars,
                 scenes = script_scenes st\<rparr>
          \<and> script_scenes st \<noteq> [] \<and> I st"
proof -
  let ?J = "\<lambda>st. script_scenes st \<noteq> [] \<and> I st"
  have "?J initialState" using init by (simp add: initialState_def)
  moreover have "\<exists>s'. processLine chars s x = Inr s' \<and> ?J s'" if "?J s" for s x
  proof -
    from that have ne: "script_scenes s \<noteq> []" by simp
    then obtain s' where s': "processLine chars s x = Inr s'" "script_scenes s' \<noteq> []"
      by (rule step_effect[where chars = chars and raw = x]) blast+
    with step[OF ne _ s'(1)] that show ?thesis by simp
  qed
  ultimately obtain st where "forEach (processLine chars) initialState (split_nl rawText) = Inr st"
    "?J st"
    using forEach_invariant[of ?J initialState "processLine chars" "split_nl rawText"] by blast
  then show ?thesis by (auto simp: analyzeScriptText_def chars_def Let_def)
qed

lemma map_replace_last:
  assumes "xs \<noteq> []" "g y = g (last xs)"
  shows "map g (butlast xs @ [y]) = map g xs"
proof -
  have "map g xs = map g (butlast xs @ [last xs])" using assms(1) by simp
  then show ?thesis using assms(2) by simp
qed

lemma idsInOrder_step:
  assumes ne: "script_scenes st \<noteq> []" and inv: "idsInOrder st"
    and pl: "processLine chars st raw = Inr st'"
  shows "idsInOrder st'"
  using ne
proof (cases rule: step_effect[where chars = chars and raw = raw])
  case (same s)
  then show ?thesis using inv pl by (simp add: idsInOrder_def del: upt_Suc)
next
  case (push s l)
  have "[1..<Suc (Suc (lineCounter st))] = [1..<Suc (lineCounter st)] @ [Suc (lineCounter st)]"
    by (rule upt_Suc_append) simp
  then show ?thesis using push inv pl by (simp add: idsInOrder_def del: upt_Suc)
next
  case (merge s)
  have "map line_id (allLines (script_scenes s)) = map line_id (allLines (script_scenes st))"
    unfolding merge(5) by (rule map_replace_last) (use merge(3) in simp_all)
  then show ?thesis using merge inv pl by (simp add: idsInOrder_def del: upt_Suc)
qed

text \<open>
  C2. For every input the script returned by \<^verbatim>\<open>analyzeScriptText\<close> has at least one
  scene, and the ids of its lines, read in document order across all scenes, are the
  decimal strings of 1, 2, 3 and so on up to the number of lines, whatever the number
  of scenes.
\<close>

theorem line_ids_sequential:
  "\<exists>s n. analyzeScriptText rawText = Inr s \<and> scenes s \<noteq> []
        \<and> map line_id (allLines (scenes s)) = map toString [1..<Suc n]"
proof -
  have "\<exists>st. analyzeScriptText rawText =
            Inr \<lparr>title = extractScriptTitle rawText (split_nl rawText),
                 characters = buildCharacters (likelyCharacters (split_nl rawText)),
                 scenes = script_scenes st\<rparr> \<and> script_scenes st \<noteq> [] \<and> idsInOrder st"
  proof (rule run_invariant)
    show "idsInOrder initialState" by (simp add: idsInOrder_def initialState_def allLines_def)
  qed (rule idsInOrder_step)
  then obtain st where "analyzeScriptText rawText =
            Inr \<lparr>title = extractScriptTitle rawText (split_nl rawText),
                 characters = buildCharacters (likelyCharacters (split_nl rawText)),
                 scenes = script_scenes st\<rparr>" "script_scenes st \<noteq> []" "idsInOrder st"
    by blast
  then show ?thesis unfolding idsInOrder_def by (intro exI[of _ "lineCounter st"] exI) auto
qed

section \<open>The characters of a script and the speakers of its lines\<close>

lemma buildCharacters_ids:
  "map char_id (buildCharacters likely) = map toString [1..<Suc (length likely)]"
  by (rule nth_equalityI) (simp_all add: buildCharacters_def nth_append del: upt_Suc)

lemma buildCharacters_names: "map char_name (buildCharacters likely) = map fst likely"
  by (rule nth_equalityI) (simp_all add: buildCharacters_def)

lemma zero_not_character_id: "''0'' \<notin> set (map char_id (buildCharacters likely))"
proof
  assume "''0'' \<in> set (map char_id (buildCharacters likely))"
  then obtain n where "1 \<le> n" "toString n = ''0''"
    unfolding buildCharacters_ids by (auto simp del: upt_Suc)
  then show False by (simp add: toString_zero_iff)
qed

lemma list_all_replace_last:
  assumes "list_all P xs" "P y"
  shows "list_all P (butlast xs @ [y])"
  using assms by (auto simp: list_all_iff dest: in_set_butlastD)

lemma knownSpeakers_step:
  assumes ne: "script_scenes st \<noteq> []" and inv: "knownSpeakers chars st"
    and pl: "processLine chars st raw = Inr st'"
  shows "knownSpeakers chars st'"
  using ne
proof (cases rule: step_effect[where chars = chars and raw = raw])
  case (same s)
  then show ?thesis using inv pl by (auto simp: knownSpeakers_def split: option.splits)
next
  case (push s l)
  from push(8) have "characterId l = ''0'' \<or> characterId l \<in> set (map char_id chars)"
    using inv by (auto simp: knownSpeakers_def)
  moreover from push(8) have
    "case currentCharacterId s of None \<Rightarrow> True | Some c \<Rightarrow> c \<in> set (map char_id chars)"
    using inv by (auto simp: knownSpeakers_def)
  ultimately show ?thesis using push(3) inv pl push(1) by (simp add: knownSpeakers_def)
next
  case (merge s)
  let ?xs = "allLines (script_scenes st)"
  have "list_all (\<lambda>l. characterId l = ''0'' \<or> characterId l \<in> set (map char_id chars))
          (allLines (script_scenes s))"
    unfolding merge(5)
    by (rule list_all_replace_last) (use inv merge(3) in \<open>auto simp: knownSpeakers_def list_all_iff\<close>)
  then show ?thesis using merge inv pl by (simp add: knownSpeakers_def)
qed

lemma allDirections_step:
  assumes ne: "script_scenes st \<noteq> []" and inv: "allDirections st"
    and pl: "processLine [] st raw = Inr st'"
  shows "allDirections st'"
  using ne
proof (cases rule: step_effect[where chars = "[]" and raw = raw])
  case (same s)
  then show ?thesis using inv pl by (auto simp: allDirections_def)
next
  case (push s l)
  then show ?thesis using inv pl by (auto simp: allDirections_def)
next
  case (merge s)
  then show ?thesis using inv pl by (simp add: allDirections_def)
qed

lemma textsTrimmed_step:
  assumes ne: "script_scenes st \<noteq> []" and inv: "textsTrimmed st"
    and pl: "processLine chars st raw = Inr st'"
  shows "textsTrimmed st'"
  using ne
proof (cases rule: step_effect[where chars = chars and raw = raw])
  case (same s)
  then show ?thesis using inv pl by (simp add: textsTrimmed_def)
next
  case (push s l)
  then show ?thesis using inv pl by (simp add: textsTrimmed_def)
next
  case (merge s)
  let ?xs = "allLines (script_scenes st)"
  have old: "line_text (last ?xs) \<noteq> []" "trim (line_text (last ?xs)) = line_text (last ?xs)"
    using inv merge(3) by (auto simp: textsTrimmed_def list_all_iff)
  have "list_all (\<lambda>l. line_text l \<noteq> [] \<and> trim (line_text l) = line_text l)
          (allLines (script_scenes s))"
    unfolding merge(5)
  proof (rule list_all_replace_last)
    show "list_all (\<lambda>l. line_text l \<noteq> [] \<and> trim (line_text l) = line_text l) ?xs"
      using inv by (simp add: textsTrimmed_def)
    have "trim (line_text (last ?xs) @ '' '' @ trim raw) = line_text (last ?xs) @ '' '' @ trim raw"
      by (rule trim_join) (use old merge(4) in \<open>simp_all add: trim_idem\<close>)
    then show "line_text (last ?xs\<lparr>line_text := line_text (last ?xs) @ '' '' @ trim raw\<rparr>) \<noteq> [] \<and>
          trim (line_text (last ?xs\<lparr>line_text := line_text (last ?xs) @ '' '' @ trim raw\<rparr>)) =
          line_text (last ?xs\<lparr>line_text := line_text (last ?xs) @ '' '' @ trim raw\<rparr>)"
      by simp
  qed
  then show ?thesis using merge pl by (simp add: textsTrimmed_def)
qed

subsection \<open>\<^verbatim>\<open>analyzeScriptText\<close> always returns\<close>

text \<open>
  Every access \<^verbatim>\<open>script.scenes[script.scenes.length - 1]\<close> finds a scene, since the list
  starts with one scene and only grows; and the last line of a scene is read only
  behind the test \<^verbatim>\<open>previousScene.lines.length > 0\<close>. So no input makes
  \<open>analyzeScriptText\<close> throw. When the catalog is empty, every line is a stage
  direction under \<open>''0''\<close>; and the character list is empty exactly when no name
  reached the threshold.
\<close>

lemma analyzeScriptText_returns:
  "\<exists>s. analyzeScriptText rawText = Inr s \<and> scenes s \<noteq> []"
proof -
  have "\<exists>st::seg_state. analyzeScriptText rawText =
            Inr \<lparr>title = extractScriptTitle rawText (split_nl rawText),
                 characters = buildCharacters (likelyCharacters (split_nl rawText)),
                 scenes = script_scenes st\<rparr> \<and> script_scenes st \<noteq> [] \<and> True"
    using run_invariant[of "\<lambda>_. True" rawText] by simp
  then show ?thesis by auto
qed

lemma analyzeScriptText_characters:
  "analyzeScriptText rawText = Inr s \<Longrightarrow>
     characters s = buildCharacters (likelyCharacters (split_nl rawText))"
  by (auto simp: analyzeScriptText_def Let_def split: sum.splits)

lemma analyzeScriptText_worst_case:
  assumes "likelyCharacters (split_nl rawText) = []"
  shows "\<exists>s. analyzeScriptText rawText = Inr s \<and> characters s = []
         \<and> (\<forall>l \<in> set (allLines (scenes s)). characterId l = ''0'' \<and> isDirection l = Some True)"
proof -
  have chars: "buildCharacters (likelyCharacters (split_nl rawText)) = []"
    using assms by (simp add: buildCharacters_def)
  have "\<exists>st. analyzeScriptText rawText =
            Inr \<lparr>title = extractScriptTitle rawText (split_nl rawText),
                 characters = buildCharacters (likelyCharacters (split_nl rawText)),
                 scenes = script_scenes st\<rparr> \<and> script_scenes st \<noteq> [] \<and> allDirections st"
  proof (rule run_invariant)
    show "allDirections initialState" by (simp add: allDirections_def initialState_def allLines_def)
  qed (simp add: chars allDirections_step)
  then show ?thesis using chars by (auto simp: allDirections_def list_all_iff)
qed

lemma characters_empty_iff:
  "analyzeScriptText rawText = Inr s \<Longrightarrow>
     characters s = [] \<longleftrightarrow> likelyCharacters (split_nl rawText) = []"
  using buildCharacters_names[of "likelyCharacters (split_nl rawText)"]
  by (auto simp: analyzeScriptText_characters simp del: buildCharacters_names)

subsection \<open>Speakers are cataloged characters\<close>

text \<open>
  C4. For every input and every line of the script returned by \<^verbatim>\<open>analyzeScriptText\<close>,
  the \<open>characterId\<close> of the line is the sentinel \<open>''0''\<close> or the id of a character
  of the script's character list; and \<open>''0''\<close> is the id of no character of that list.
\<close>

theorem character_ids_known:
  "\<exists>s. analyzeScriptText rawText = Inr s
       \<and> (\<forall>l \<in> set (allLines (scenes s)).
             characterId l = ''0'' \<or> characterId l \<in> set (map char_id (characters s)))
       \<and> ''0'' \<notin> set (map char_id (characters s))"
proof -
  let ?chars = "buildCharacters (likelyCharacters (split_nl rawText))"
  have "\<exists>st. analyzeScriptText rawText =
            Inr \<lparr>title = extractScriptTitle rawText (split_nl rawText), characters = ?chars,
                 scenes = script_scenes st\<rparr> \<and> script_scenes st \<noteq> [] \<and> knownSpeakers ?chars st"
  proof (rule run_invariant)
    show "knownSpeakers ?chars initialState"
      by (simp add: knownSpeakers_def initialState_def allLines_def)
  qed (rule knownSpeakers_step)
  then show ?thesis using zero_not_character_id[of "likelyCharacters (split_nl rawText)"]
    by (auto simp: knownSpeakers_def list_all_iff)
qed

text \<open>
  An input with lines to speak of: two speaker lines of \<open>AB\<close>, cataloged under the
  id \<open>''1''\<close>, around a stage direction.
\<close>

theorem character_ids_known_witness:
  "\<exists>s l. analyzeScriptText (''AB: x'' @ [LF] @ ''(z)'' @ [LF] @ ''AB: y'') = Inr s
       \<and> l \<in> set (allLines (scenes s)) \<and> characterId l = ''1''
       \<and> characterId l \<in> set (map char_id (characters s))
       \<and> ''0'' \<notin> set (map char_id (characters s))"
proof -
  let ?X = "''AB: x'' @ [LF] @ ''(z)'' @ [LF] @ ''AB: y''"
  from character_ids_known[of ?X] obtain s where s: "analyzeScriptText ?X = Inr s"
    "\<forall>l \<in> set (allLines (scenes s)).
        characterId l = ''0'' \<or> characterId l \<in> set (map char_id (characters s))"
    "''0'' \<notin> set (map char_id (characters s))" by blast
  have "map characterId (allLines (scenes (projr (analyzeScriptText ?X)))) = [''1'', ''0'', ''1'']"
    by code_simp
  then have ids: "map characterId (allLines (scenes s)) = [''1'', ''0'', ''1'']"
    using s(1) by simp
  then have ne: "allLines (scenes s) \<noteq> []" by auto
  define l where "l = hd (allLines (scenes s))"
  have "characterId l = hd (map characterId (allLines (scenes s)))"
    unfolding l_def using ne by (simp add: hd_map)
  then have l: "l \<in> set (allLines (scenes s))" "characterId l = ''1''"
    unfolding l_def using ne by (simp_all add: ids)
  from s(2)[rule_format, OF l(1)] l(2)
  have "characterId l \<in> set (map char_id (characters s))" by simp
  with s l show ?thesis by blast
qed

section \<open>Scenes that are no longer current\<close>

lemma forEach_append:
  "forEach body st (xs @ ys) =
     (case forEach body st xs of Inl e \<Rightarrow> Inl e | Inr st' \<Rightarrow> forEach body st' ys)"
  by (induction xs arbitrary: st) (auto split: sum.splits)

lemma step_returns:
  assumes "script_scenes st \<noteq> []"
  shows "\<exists>st'. processLine chars st raw = Inr st'"
  using assms by (rule step_effect[where chars = chars and raw = raw]) blast+

lemma step_frame:
  assumes ne: "script_scenes st \<noteq> []" and pl: "processLine chars st raw = Inr st'"
  shows "script_scenes st' \<noteq> []"
    and "length (script_scenes st) \<le> length (script_scenes st')"
    and "take (length (script_scenes st) - 1) (script_scenes st') = butlast (script_scenes st)"
proof -
  have "script_scenes st' \<noteq> [] \<and> length (script_scenes st) \<le> length (script_scenes st')
      \<and> take (length (script_scenes st) - 1) (script_scenes st') = butlast (script_scenes st)"
    using ne
  proof (cases rule: processLine_cases[where raw = raw and chars = chars])
    case skip
    then show ?thesis using pl ne by (auto simp: butlast_conv_take)
  next
    case marker
    then show ?thesis using pl ne by (auto simp: openScene_def butlast_conv_take)
  next
    case (cue ch)
    then show ?thesis using pl ne by (auto simp: butlast_conv_take)
  next
    case (speak ch)
    then show ?thesis using pl ne by (auto simp: pushLine_Inr butlast_conv_take)
  next
    case (merge cur)
    then show ?thesis using pl ne by auto
  next
    case (dialogue cur)
    then show ?thesis using pl ne by (auto simp: pushLine_Inr butlast_conv_take)
  next
    case direction
    then show ?thesis using pl ne by (auto simp: pushLine_Inr butlast_conv_take)
  qed
  then show "script_scenes st' \<noteq> []"
    and "length (script_scenes st) \<le> length (script_scenes st')"
    and "take (length (script_scenes st) - 1) (script_scenes st') = butlast (script_scenes st)"
    by simp_all
qed

lemma run_frame:
  assumes "script_scenes st \<noteq> []"
  shows "\<exists>st'. forEach (processLine chars) st raws = Inr st' \<and> script_scenes st' \<noteq> []
          \<and> length (script_scenes st) \<le> length (script_scenes st')
          \<and> take (length (script_scenes st) - 1) (script_scenes st') = butlast (script_scenes st)"
  using assms
proof (induction raws arbitrary: st)
  case Nil
  then show ?case by (simp add: butlast_conv_take)
next
  case (Cons r raws)
  from step_returns[OF Cons.prems, of chars r] obtain st1 where
    st1: "processLine chars st r = Inr st1" by blast
  note f1 = step_frame[OF Cons.prems st1]
  from Cons.IH[OF f1(1)] obtain st2 where st2: "forEach (processLine chars) st1 raws = Inr st2"
    "script_scenes st2 \<noteq> []" "length (script_scenes st1) \<le> length (script_scenes st2)"
    "take (length (script_scenes st1) - 1) (script_scenes st2) = butlast (script_scenes st1)"
    by blast
  have le: "length (script_scenes st) - 1 \<le> length (script_scenes st1) - 1"
    using f1(2) by simp
  have "take (length (script_scenes st) - 1) (script_scenes st2) =
        take (length (script_scenes st) - 1) (take (length (script_scenes st1) - 1) (script_scenes st2))"
    using le by (simp only: take_take min_absorb1)
  also have "\<dots> = take (length (script_scenes st) - 1) (take (length (script_scenes st1) - 1) (script_scenes st1))"
    by (simp only: st2(4) butlast_conv_take)
  also have "\<dots> = take (length (script_scenes st) - 1) (script_scenes st1)"
    using le by (simp only: take_take min_absorb1)
  finally have "take (length (script_scenes st) - 1) (script_scenes st2) = butlast (script_scenes st)"
    using f1(3) by simp
  then show ?case using st1 st2 f1(2) by simp
qed

lemma sceneMarker_nonempty: "sceneMarker l \<Longrightarrow> l \<noteq> []"
  by (auto simp: sceneMarker_def startsWithIgnoreCase_def)

lemma marker_step:
  assumes "sceneMarker (trim raw)"
  shows "processLine chars st raw = Inr (openScene st (trim raw))"
  using assms sceneMarker_nonempty[OF assms] by (simp add: processLine_def)

text \<open>
  C10. Once a scene or act marker has opened a new scene, the scenes opened before it
  are never modified for the rest of the run: when the lines of the input are
  \<open>pre\<close>, a marker line and \<open>post\<close>, the scenes as they stand after \<open>pre\<close> are,
  unchanged, the first scenes of the script returned, whatever \<open>post\<close> holds and
  whoever was speaking when the marker came. Every later append or extension of a text
  therefore goes to a scene opened by the marker or after it.
\<close>

theorem earlier_scenes_frozen:
  assumes "split_nl rawText = pre @ marker # post" and "sceneMarker (trim marker)"
  shows "\<exists>st s. forEach (processLine (buildCharacters (likelyCharacters (split_nl rawText))))
                  initialState pre = Inr st
             \<and> analyzeScriptText rawText = Inr s
             \<and> length (script_scenes st) < length (scenes s)
             \<and> take (length (script_scenes st)) (scenes s) = script_scenes st"
proof -
  let ?chars = "buildCharacters (likelyCharacters (split_nl rawText))"
  have "script_scenes initialState \<noteq> []" by (simp add: initialState_def)
  from run_frame[OF this, of ?chars pre] obtain st where
    st: "forEach (processLine ?chars) initialState pre = Inr st" "script_scenes st \<noteq> []"
    by blast
  let ?st1 = "openScene st (trim marker)"
  have m: "processLine ?chars st marker = Inr ?st1" using assms(2) by (rule marker_step)
  have ne1: "script_scenes ?st1 \<noteq> []" by (simp add: openScene_def)
  from run_frame[OF ne1, of ?chars post] obtain st2 where
    st2: "forEach (processLine ?chars) ?st1 post = Inr st2"
      "length (script_scenes ?st1) \<le> length (script_scenes st2)"
      "take (length (script_scenes ?st1) - 1) (script_scenes st2) = butlast (script_scenes ?st1)"
    by blast
  have "forEach (processLine ?chars) initialState (split_nl rawText) = Inr st2"
    using st(1) m st2(1) by (simp add: assms(1) forEach_append)
  then have "analyzeScriptText rawText =
      Inr \<lparr>title = extractScriptTitle rawText (split_nl rawText), characters = ?chars,
           scenes = script_scenes st2\<rparr>"
    by (simp add: analyzeScriptText_def Let_def)
  moreover have "length (script_scenes st) < length (script_scenes st2)"
    using st2(2) by (simp add: openScene_def)
  moreover have "take (length (script_scenes st)) (script_scenes st2) = script_scenes st"
    using st2(3) by (simp add: openScene_def)
  ultimately show ?thesis using st(1) by auto
qed

text \<open>A speaker line, a marker, and two lines of the same speaker after it.\<close>

theorem earlier_scenes_frozen_witness:
  "split_nl (''AB: x'' @ [LF] @ ''ATTO I'' @ [LF] @ ''AB: y'' @ [LF] @ ''more'')
     = [''AB: x''] @ ''ATTO I'' # [''AB: y'', ''more'']
   \<and> sceneMarker (trim ''ATTO I'')
   \<and> (\<exists>st s. forEach (processLine (buildCharacters (likelyCharacters (split_nl
                   (''AB: x'' @ [LF] @ ''ATTO I'' @ [LF] @ ''AB: y'' @ [LF] @ ''more'')))))
                  initialState [''AB: x''] = Inr st
             \<and> analyzeScriptText (''AB: x'' @ [LF] @ ''ATTO I'' @ [LF] @ ''AB: y'' @ [LF] @ ''more'') = Inr s
             \<and> length (script_scenes st) < length (scenes s)
             \<and> take (length (script_scenes st)) (scenes s) = script_scenes st)"
proof -
  let ?X = "''AB: x'' @ [LF] @ ''ATTO I'' @ [LF] @ ''AB: y'' @ [LF] @ ''more''"
  have h1: "split_nl ?X = [''AB: x''] @ ''ATTO I'' # [''AB: y'', ''more'']" by code_simp
  have h2: "sceneMarker (trim ''ATTO I'')" by code_simp
  from earlier_scenes_frozen[OF h1 h2] h1 h2 show ?thesis by blast
qed

subsection \<open>Scene and act markers\<close>

text \<open>
  The decimal string of a number determines the number, so the ids of the scenes of a
  run, the strings of one, two and so on, are pairwise different.
\<close>

lemma digitChar_inj: "a < 10 \<Longrightarrow> b < 10 \<Longrightarrow> digitChar a = digitChar b \<Longrightarrow> a = b"
proof -
  have "\<forall>a \<in> set [0..<10]. \<forall>b \<in> set [0..<10]. digitChar a = digitChar b \<longrightarrow> a = b"
    by code_simp
  then show "a < 10 \<Longrightarrow> b < 10 \<Longrightarrow> digitChar a = digitChar b \<Longrightarrow> a = b" by simp
qed

lemma toString_length_one: "length (toString n) = Suc 0 \<longleftrightarrow> n < 10"
proof (cases "n < 10")
  case True
  then show ?thesis by (subst toString.simps) simp
next
  case False
  have "length (toString n) = length (toString (n div 10)) + 1"
    using False by (subst toString.simps) simp
  moreover have "0 < length (toString (n div 10))"
    using toString_nonempty[of "n div 10"] by simp
  ultimately show ?thesis using False by linarith
qed

lemma toString_inj: "toString m = toString n \<Longrightarrow> m = n"
proof (induction m arbitrary: n rule: toString.induct)
  case (1 m)
  show ?case
  proof (cases "m < 10")
    case True
    then have "length (toString n) = Suc 0" using "1.prems" toString_length_one[of m] by simp
    then have n: "n < 10" by (simp add: toString_length_one)
    have "toString m = [digitChar m]" using True by (subst toString.simps) simp
    moreover have "toString n = [digitChar n]" using n by (subst toString.simps) simp
    ultimately show ?thesis using "1.prems" True n digitChar_inj by simp
  next
    case False
    then have "length (toString n) \<noteq> Suc 0" using "1.prems" toString_length_one[of m] by simp
    then have n: "\<not> n < 10" by (simp add: toString_length_one)
    have "toString m = toString (m div 10) @ [digitChar (m mod 10)]"
      using False by (subst toString.simps) simp
    moreover have "toString n = toString (n div 10) @ [digitChar (n mod 10)]"
      using n by (subst toString.simps) simp
    ultimately have e: "toString (m div 10) = toString (n div 10)"
      "digitChar (m mod 10) = digitChar (n mod 10)" using "1.prems" by simp_all
    from "1.IH"[OF False e(1)] have "m div 10 = n div 10" .
    moreover have "m mod 10 = n mod 10" using e(2) by (intro digitChar_inj) simp_all
    ultimately show ?thesis by (metis div_mult_mod_eq)
  qed
qed

lemma scene_ids_distinct: "distinct (map toString [1..<Suc n])"
  by (simp add: distinct_map inj_on_def toString_inj del: upt_Suc)

lemma sceneIdsInOrder_step:
  assumes ne: "script_scenes st \<noteq> []" and inv: "sceneIdsInOrder st"
    and pl: "processLine chars st raw = Inr st'"
  shows "sceneIdsInOrder st'"
proof -
  have same: "sceneIdsInOrder s" if "map scene_id (script_scenes s) = map scene_id (script_scenes st)" for s
  proof -
    from that have "length (script_scenes s) = length (script_scenes st)"
      by (metis length_map)
    then show ?thesis using that inv by (simp add: sceneIdsInOrder_def del: upt_Suc)
  qed
  have "map scene_id (script_scenes st) = map scene_id (butlast (script_scenes st) @ [last (script_scenes st)])"
    using ne by simp
  then have keep: "map scene_id (butlast (script_scenes st)) @ [scene_id (last (script_scenes st))]
      = map scene_id (script_scenes st)"
    by simp
  show ?thesis
    using ne
  proof (cases rule: processLine_cases[where raw = raw and chars = chars])
    case skip
    then show ?thesis using pl inv by simp
  next
    case marker
    have "[1..<Suc (Suc (length (script_scenes st)))] =
          [1..<Suc (length (script_scenes st))] @ [Suc (length (script_scenes st))]"
      by (rule upt_Suc_append) simp
    then show ?thesis using marker pl inv
      by (auto simp: sceneIdsInOrder_def openScene_def simp del: upt_Suc)
  next
    case (cue ch)
    then show ?thesis using pl by (intro same) auto
  next
    case (speak ch)
    then show ?thesis using pl ne by (intro same) (auto simp: pushLine_Inr keep)
  next
    case (merge cur)
    then show ?thesis using pl ne by (intro same) (auto simp: keep extendLastLine_def)
  next
    case (dialogue cur)
    then show ?thesis using pl ne by (intro same) (auto simp: pushLine_Inr keep)
  next
    case direction
    then show ?thesis using pl ne by (intro same) (auto simp: pushLine_Inr keep)
  qed
qed

lemma reached_scene_ids:
  assumes "forEach (processLine chars) initialState pre = Inr st"
  shows "script_scenes st \<noteq> []" and "sceneIdsInOrder st"
proof -
  let ?J = "\<lambda>st. script_scenes st \<noteq> [] \<and> sceneIdsInOrder st"
  have "?J initialState" by (simp add: initialState_def sceneIdsInOrder_def toString.simps digitChar_def)
  moreover have "\<exists>s'. processLine chars s x = Inr s' \<and> ?J s'" if "?J s" for s x
  proof -
    from that have ne: "script_scenes s \<noteq> []" by simp
    from step_returns[OF ne, of chars x] obtain s' where s': "processLine chars s x = Inr s'" by blast
    from step_frame(1)[OF ne s'] sceneIdsInOrder_step[OF ne _ s'] that show ?thesis using s' by simp
  qed
  ultimately have "\<exists>s'. forEach (processLine chars) initialState pre = Inr s' \<and> ?J s'"
    by (rule forEach_invariant)
  then show "script_scenes st \<noteq> []" and "sceneIdsInOrder st" using assms by auto
qed

text \<open>
  C6. When the trimmed line matches a leading act or scene keyword followed by white
  space and a Roman-numeral or digit token, in any case, the step opens a new scene
  after the existing ones, with the next number as its id and the whole trimmed line as
  its name, and changes nothing else: the marker is not stored as a line. The new scene
  is the current one: a line pushed next lands in it, with its id as \<open>sceneId\<close>, and
  the step after the marker leaves the earlier scenes as they were. The id is fresh: in
  a state that the segmenter has reached from its initial state, over any lines
  \<open>pre\<close>, no scene has the id of the new scene, and after the step the ids of the
  scenes are pairwise different, the decimal strings of one, two and so on in order.
\<close>

theorem scene_marker_opens_scene:
  assumes "sceneMarker (trim raw)"
  shows "\<exists>st1. processLine chars st raw = Inr st1
         \<and> st1 = st\<lparr>script_scenes := script_scenes st @
                     [\<lparr>scene_id = toString (length (script_scenes st) + 1),
                       scene_name = trim raw, lines = []\<rparr>]\<rparr>
         \<and> allLines (script_scenes st1) = allLines (script_scenes st)
         \<and> pushLine st1 c t d =
             Inr (st1\<lparr>lineCounter := lineCounter st + 1,
                      script_scenes := script_scenes st @
                        [\<lparr>scene_id = toString (length (script_scenes st) + 1),
                          scene_name = trim raw,
                          lines = [\<lparr>line_id = toString (lineCounter st + 1), characterId = c,
                                    line_text = t,
                                    sceneId = toString (length (script_scenes st) + 1),
                                    isDirection = d\<rparr>]\<rparr>]\<rparr>)
         \<and> (\<exists>st2. processLine chars st1 next = Inr st2
                \<and> take (length (script_scenes st)) (script_scenes st2) = script_scenes st)
         \<and> (forEach (processLine chars) initialState pre = Inr st \<longrightarrow>
              toString (length (script_scenes st) + 1) \<notin> set (map scene_id (script_scenes st))
              \<and> distinct (map scene_id (script_scenes st1))
              \<and> map scene_id (script_scenes st1)
                  = map toString [1..<Suc (length (script_scenes st1))])"
proof -
  let ?st1 = "openScene st (trim raw)"
  have m: "processLine chars st raw = Inr ?st1" using assms by (rule marker_step)
  have ne1: "script_scenes ?st1 \<noteq> []" by (simp add: openScene_def)
  from step_returns[OF ne1, of chars "next"] obtain st2 where
    st2: "processLine chars ?st1 next = Inr st2" by blast
  from step_frame(3)[OF ne1 st2]
  have fr: "take (length (script_scenes st)) (script_scenes st2) = script_scenes st"
    by (simp add: openScene_def)
  have fresh: "toString (length (script_scenes st) + 1) \<notin> set (map scene_id (script_scenes st))
      \<and> distinct (map scene_id (script_scenes ?st1))
      \<and> map scene_id (script_scenes ?st1) = map toString [1..<Suc (length (script_scenes ?st1))]"
    if r: "forEach (processLine chars) initialState pre = Inr st"
  proof -
    note i = reached_scene_ids[OF r]
    have i1: "sceneIdsInOrder ?st1" using sceneIdsInOrder_step[OF i(1) i(2) m] .
    then have ids1: "map scene_id (script_scenes ?st1)
        = map toString [1..<Suc (length (script_scenes ?st1))]"
      by (simp add: sceneIdsInOrder_def)
    then have d: "distinct (map scene_id (script_scenes ?st1))"
      using scene_ids_distinct[of "length (script_scenes ?st1)"] by simp
    have "map scene_id (script_scenes ?st1) =
        map scene_id (script_scenes st) @ [toString (length (script_scenes st) + 1)]"
      by (simp add: openScene_def)
    with d have "toString (length (script_scenes st) + 1) \<notin> set (map scene_id (script_scenes st))"
      by (simp del: map_append)
    with d ids1 show ?thesis by blast
  qed
  have f2: "?st1 = st\<lparr>script_scenes := script_scenes st @
                     [\<lparr>scene_id = toString (length (script_scenes st) + 1),
                       scene_name = trim raw, lines = []\<rparr>]\<rparr>"
    by (simp add: openScene_def)
  have f3: "allLines (script_scenes ?st1) = allLines (script_scenes st)"
    by (rule allLines_open)
  have f4: "pushLine ?st1 c t d =
             Inr (?st1\<lparr>lineCounter := lineCounter st + 1,
                      script_scenes := script_scenes st @
                        [\<lparr>scene_id = toString (length (script_scenes st) + 1),
                          scene_name = trim raw,
                          lines = [\<lparr>line_id = toString (lineCounter st + 1), characterId = c,
                                    line_text = t,
                                    sceneId = toString (length (script_scenes st) + 1),
                                    isDirection = d\<rparr>]\<rparr>]\<rparr>)"
    by (simp add: openScene_def pushLine_Inr)
  have f5: "\<exists>st2. processLine chars ?st1 next = Inr st2
                \<and> take (length (script_scenes st)) (script_scenes st2) = script_scenes st"
    using st2 fr by blast
  have f6: "forEach (processLine chars) initialState pre = Inr st \<longrightarrow>
              toString (length (script_scenes st) + 1) \<notin> set (map scene_id (script_scenes st))
              \<and> distinct (map scene_id (script_scenes ?st1))
              \<and> map scene_id (script_scenes ?st1)
                  = map toString [1..<Suc (length (script_scenes ?st1))]"
    using fresh by blast
  show ?thesis
    by (rule exI[of _ ?st1], intro conjI) (fact m f2 f3 f4 f5 f6)+
qed

text \<open>
  The marker \<^verbatim>\<open>Scena iv\<close>, in lower case, after a no-break space and before two spaces,
  met after one line of text.
\<close>

theorem scene_marker_opens_scene_witness:
  "sceneMarker (trim ([CHR 0xA0] @ ''Scena iv  ''))
   \<and> forEach (processLine []) initialState [''x''] =
       Inr \<lparr>script_scenes = [\<lparr>scene_id = ''1'', scene_name = ''Scena 1'',
               lines = [\<lparr>line_id = ''1'', characterId = ''0'', line_text = ''x'',
                         sceneId = ''1'', isDirection = Some True\<rparr>]\<rparr>],
            currentCharacterId = None, lineCounter = 1\<rparr>
   \<and> (\<exists>st1. processLine []
            \<lparr>script_scenes = [\<lparr>scene_id = ''1'', scene_name = ''Scena 1'',
               lines = [\<lparr>line_id = ''1'', characterId = ''0'', line_text = ''x'',
                         sceneId = ''1'', isDirection = Some True\<rparr>]\<rparr>],
             currentCharacterId = None, lineCounter = 1\<rparr>
            ([CHR 0xA0] @ ''Scena iv  '') = Inr st1
         \<and> script_scenes st1 =
              [\<lparr>scene_id = ''1'', scene_name = ''Scena 1'',
                lines = [\<lparr>line_id = ''1'', characterId = ''0'', line_text = ''x'',
                          sceneId = ''1'', isDirection = Some True\<rparr>]\<rparr>,
               \<lparr>scene_id = ''2'', scene_name = ''Scena iv'', lines = []\<rparr>]
         \<and> distinct (map scene_id (script_scenes st1)))"
proof -
  let ?raw = "[CHR 0xA0] @ ''Scena iv  ''"
  let ?st = "\<lparr>script_scenes = [\<lparr>scene_id = ''1'', scene_name = ''Scena 1'',
               lines = [\<lparr>line_id = ''1'', characterId = ''0'', line_text = ''x'',
                         sceneId = ''1'', isDirection = Some True\<rparr>]\<rparr>],
             currentCharacterId = None, lineCounter = 1\<rparr>"
  have h: "sceneMarker (trim ?raw)" by code_simp
  have r: "forEach (processLine []) initialState [''x''] = Inr ?st" by code_simp
  have t: "trim ?raw = ''Scena iv''" by code_simp
  have n: "toString (length (script_scenes ?st) + 1) = ''2''" by code_simp
  from scene_marker_opens_scene[OF h, of "[]" ?st _ _ _ _ "[''x'']"]
  obtain st1 where st1: "processLine [] ?st ?raw = Inr st1"
    "st1 = ?st\<lparr>script_scenes := script_scenes ?st @
                     [\<lparr>scene_id = toString (length (script_scenes ?st) + 1),
                       scene_name = trim ?raw, lines = []\<rparr>]\<rparr>"
    "forEach (processLine []) initialState [''x''] = Inr ?st \<longrightarrow>
       toString (length (script_scenes ?st) + 1) \<notin> set (map scene_id (script_scenes ?st))
       \<and> distinct (map scene_id (script_scenes st1))
       \<and> map scene_id (script_scenes st1) = map toString [1..<Suc (length (script_scenes st1))]"
    by blast
  from st1(3) r have d: "distinct (map scene_id (script_scenes st1))" by blast
  have sc: "script_scenes st1 =
              [\<lparr>scene_id = ''1'', scene_name = ''Scena 1'',
                lines = [\<lparr>line_id = ''1'', characterId = ''0'', line_text = ''x'',
                          sceneId = ''1'', isDirection = Some True\<rparr>]\<rparr>,
               \<lparr>scene_id = ''2'', scene_name = ''Scena iv'', lines = []\<rparr>]"
    using st1(2) unfolding t n by simp
  show ?thesis
    by (intro conjI exI[of _ st1]) (fact h r st1(1) sc d)+
qed

subsection \<open>Continuation lines\<close>

lemma merge_step:
  assumes "script_scenes st \<noteq> []" "currentCharacterId st = Some cur" "cur \<noteq> []"
    "lines (last (script_scenes st)) \<noteq> []"
    "characterId (last (lines (last (script_scenes st)))) = cur"
    "continuationLine chars raw"
  shows "processLine chars st raw = Inr (appendToLastLine st ('' '' @ trim raw))"
  using assms
  by (simp add: processLine_def currentScene_def Let_def continuationLine_def
      appendToLastLine_def extendLastLine_def)

lemma appendToLastLine_facts:
  assumes "script_scenes st \<noteq> []" "lines (last (script_scenes st)) \<noteq> []"
  shows "script_scenes (appendToLastLine st t) \<noteq> []"
    and "lines (last (script_scenes (appendToLastLine st t))) \<noteq> []"
    and "characterId (last (lines (last (script_scenes (appendToLastLine st t)))))
         = characterId (last (lines (last (script_scenes st))))"
    and "currentCharacterId (appendToLastLine st t) = currentCharacterId st"
    and "appendToLastLine (appendToLastLine st t) u = appendToLastLine st (t @ u)"
    and "appendToLastLine st [] = st"
  using assms by (simp_all add: appendToLastLine_def)

text \<open>
  C5, as amended. When the last line of the current scene belongs to the current
  speaker, consecutive raw lines that are not blank, are no scene or act markers, are
  not prefixed by a cataloged speaker and do not look like stage directions are all
  merged into that line: its text becomes the old text followed by the trimmed pieces,
  each after one space, and no new line is emitted (the counter, the speaker and every
  other line stay as they were).
\<close>

theorem continuation_lines_merge:
  assumes "script_scenes st \<noteq> []"
    and "currentCharacterId st = Some cur" and "cur \<noteq> []"
    and "lines (last (script_scenes st)) \<noteq> []"
    and "characterId (last (lines (last (script_scenes st)))) = cur"
    and "\<forall>raw \<in> set raws. continuationLine chars raw"
  shows "forEach (processLine chars) st raws =
           Inr (appendToLastLine st (concat (map (\<lambda>raw. '' '' @ trim raw) raws)))"
  using assms
proof (induction raws arbitrary: st)
  case Nil
  then show ?case by (simp add: appendToLastLine_facts(6))
next
  case (Cons r raws)
  let ?st1 = "appendToLastLine st ('' '' @ trim r)"
  have s1: "processLine chars st r = Inr ?st1"
    using Cons.prems by (intro merge_step) simp_all
  note f = appendToLastLine_facts[OF Cons.prems(1,4)]
  have "forEach (processLine chars) ?st1 raws =
          Inr (appendToLastLine ?st1 (concat (map (\<lambda>raw. '' '' @ trim raw) raws)))"
    using Cons.prems by (intro Cons.IH) (simp_all add: f(1-4))
  then show ?case using s1 by (simp add: f(5))
qed

text \<open>
  The scenario of the specification: after \<^verbatim>\<open>ROMEO: Hello there.\<close> the two lines
  \<^verbatim>\<open>Still talking.\<close> and \<^verbatim>\<open>and more\<close> extend the line of ROMEO.
\<close>

theorem continuation_lines_merge_witness:
  "(let chars = [\<lparr>char_id = ''1'', char_name = ''ROMEO''\<rparr>];
        st = \<lparr>script_scenes = [\<lparr>scene_id = ''1'', scene_name = ''Scena 1'',
                 lines = [\<lparr>line_id = ''1'', characterId = ''1'', line_text = ''Hello there.'',
                           sceneId = ''1'', isDirection = None\<rparr>]\<rparr>],
              currentCharacterId = Some ''1'', lineCounter = 1\<rparr>;
        raws = [''Still talking.'', ''  and more '']
    in list_all (continuationLine chars) raws
       \<and> forEach (processLine chars) st raws =
           Inr \<lparr>script_scenes = [\<lparr>scene_id = ''1'', scene_name = ''Scena 1'',
                 lines = [\<lparr>line_id = ''1'', characterId = ''1'',
                           line_text = ''Hello there. Still talking. and more'',
                           sceneId = ''1'', isDirection = None\<rparr>]\<rparr>],
              currentCharacterId = Some ''1'', lineCounter = 1\<rparr>)"
proof -
  let ?chars = "[\<lparr>char_id = ''1'', char_name = ''ROMEO''\<rparr>]"
  let ?st = "\<lparr>script_scenes = [\<lparr>scene_id = ''1'', scene_name = ''Scena 1'',
                 lines = [\<lparr>line_id = ''1'', characterId = ''1'', line_text = ''Hello there.'',
                           sceneId = ''1'', isDirection = None\<rparr>]\<rparr>],
              currentCharacterId = Some ''1'', lineCounter = 1\<rparr>"
  let ?raws = "[''Still talking.'', ''  and more '']"
  have c: "list_all (continuationLine ?chars) ?raws" by code_simp
  then have c': "\<forall>raw \<in> set ?raws. continuationLine ?chars raw" by (simp add: list_all_iff)
  have r: "appendToLastLine ?st (concat (map (\<lambda>raw. '' '' @ trim raw) ?raws)) =
        \<lparr>script_scenes = [\<lparr>scene_id = ''1'', scene_name = ''Scena 1'',
                 lines = [\<lparr>line_id = ''1'', characterId = ''1'',
                           line_text = ''Hello there. Still talking. and more'',
                           sceneId = ''1'', isDirection = None\<rparr>]\<rparr>],
              currentCharacterId = Some ''1'', lineCounter = 1\<rparr>"
    by code_simp
  have "forEach (processLine ?chars) ?st ?raws =
          Inr (appendToLastLine ?st (concat (map (\<lambda>raw. '' '' @ trim raw) ?raws)))"
    by (rule continuation_lines_merge[where cur = "''1''"]) (use c' in simp_all)
  then show ?thesis using c unfolding r by (simp add: Let_def)
qed

text \<open>
  C5 as it was stated does not exclude a marker line. After the two speaker lines of
  \<open>AB\<close> the line \<^verbatim>\<open>ATTO I\<close> has no speaker prefix and does not look like a stage
  direction, and the last line of the current scene belongs to the current speaker;
  yet the text of that line stays \<open>''b''\<close>, and the line opens the scene \<^verbatim>\<open>ATTO I\<close>.
\<close>

theorem marker_line_not_merged:
  "analyzeScriptText (''AB: a'' @ [LF] @ ''AB: b'' @ [LF] @ ''ATTO I'') =
     Inr \<lparr>title = ''ATTO I'',
          characters = [\<lparr>char_id = ''1'', char_name = ''AB''\<rparr>],
          scenes = [\<lparr>scene_id = ''1'', scene_name = ''Scena 1'',
                     lines = [\<lparr>line_id = ''1'', characterId = ''1'', line_text = ''a'',
                               sceneId = ''1'', isDirection = None\<rparr>,
                              \<lparr>line_id = ''2'', characterId = ''1'', line_text = ''b'',
                               sceneId = ''1'', isDirection = None\<rparr>]\<rparr>,
                    \<lparr>scene_id = ''2'', scene_name = ''ATTO I'', lines = []\<rparr>]\<rparr>
   \<and> findCharacter [\<lparr>char_id = ''1'', char_name = ''AB''\<rparr>] ''ATTO I'' = None
   \<and> \<not> isSceneDirection ''ATTO I''"
  by code_simp

section \<open>The texts of the lines\<close>

text \<open>
  What one step does to the texts: it leaves the lines alone, or emits one line whose
  text is a trimmed stretch of the raw line, or appends a space and the trimmed raw line
  to the text of the last line.
\<close>

lemma step_texts:
  assumes ne: "script_scenes st \<noteq> []" and pl: "processLine chars st raw = Inr st'"
  shows "allLines (script_scenes st') = allLines (script_scenes st)
       \<or> (\<exists>l. allLines (script_scenes st') = allLines (script_scenes st) @ [l]
              \<and> line_text l \<noteq> [] \<and> trim (line_text l) = line_text l
              \<and> occursIn (line_text l) raw)
       \<or> (allLines (script_scenes st) \<noteq> [] \<and> trim raw \<noteq> []
          \<and> allLines (script_scenes st') = butlast (allLines (script_scenes st)) @
              [(last (allLines (script_scenes st)))\<lparr>line_text :=
                 line_text (last (allLines (script_scenes st))) @ '' '' @ trim raw\<rparr>])"
  using ne
proof (cases rule: processLine_cases[where raw = raw and chars = chars])
  case skip
  then show ?thesis using pl by simp
next
  case marker
  then show ?thesis using pl by (auto simp: allLines_open)
next
  case (cue ch)
  then show ?thesis using pl by auto
next
  case (speak ch)
  have "allLines (script_scenes st') = allLines (script_scenes st) @
       [\<lparr>line_id = toString (lineCounter st + 1), characterId = char_id ch,
         line_text = trim (drop (length (char_name ch) + 1) (trim raw)),
         sceneId = scene_id (last (script_scenes st)), isDirection = None\<rparr>]"
    using speak(3) pl ne by (auto simp: pushLine_Inr allLines_push)
  then show ?thesis using speak(2) by (simp add: trim_idem occursIn_trim_drop)
next
  case (merge cur)
  then show ?thesis
    using pl allLines_extend(1)[OF ne merge(3), of "trim raw"] allLines_extend(3)[OF ne merge(3)]
    by auto
next
  case (dialogue cur)
  have "allLines (script_scenes st') = allLines (script_scenes st) @
       [\<lparr>line_id = toString (lineCounter st + 1), characterId = cur, line_text = trim raw,
         sceneId = scene_id (last (script_scenes st)), isDirection = None\<rparr>]"
    using dialogue(3) pl ne by (auto simp: pushLine_Inr allLines_push)
  then show ?thesis using dialogue(1) by (simp add: trim_idem occursIn_trim)
next
  case direction
  have "allLines (script_scenes st') = allLines (script_scenes st) @
       [\<lparr>line_id = toString (lineCounter st + 1), characterId = ''0'', line_text = trim raw,
         sceneId = scene_id (last (script_scenes st)), isDirection = Some True\<rparr>]"
    using direction(2) pl ne by (auto simp: pushLine_Inr allLines_push)
  then show ?thesis using direction(1) by (simp add: trim_idem occursIn_trim)
qed

lemma texts_from_input:
  fixes rawText
  defines "ls \<equiv> split_nl rawText"
  defines "P \<equiv> \<lambda>l. \<exists>ps. ps \<noteq> [] \<and> line_text l = joinSpace ps \<and> list_all (pieceOfInput ls) ps"
  assumes run: "forEach (processLine chars) initialState ls = Inr st"
  shows "list_all P (allLines (script_scenes st))"
proof -
  let ?J = "\<lambda>st. script_scenes st \<noteq> [] \<and> list_all P (allLines (script_scenes st))"
  have "?J initialState" by (simp add: initialState_def allLines_def)
  moreover have "\<exists>s'. processLine chars s x = Inr s' \<and> ?J s'" if x: "x \<in> set ls" and J: "?J s" for s x
  proof -
    from J have ne: "script_scenes s \<noteq> []" by simp
    from step_returns[OF ne, of chars x] obtain s' where s': "processLine chars s x = Inr s'" by blast
    have ne': "script_scenes s' \<noteq> []" using step_frame(1)[OF ne s'] by simp
    have piece: "pieceOfInput ls p" if "p \<noteq> []" "trim p = p" "occursIn p x" for p
      using that x by (auto simp: pieceOfInput_def list_ex_iff)
    from step_texts[OF ne s'] consider
      (same) "allLines (script_scenes s') = allLines (script_scenes s)"
      | (push) l where "allLines (script_scenes s') = allLines (script_scenes s) @ [l]"
          "line_text l \<noteq> []" "trim (line_text l) = line_text l" "occursIn (line_text l) x"
      | (merge) "allLines (script_scenes s) \<noteq> []" "trim x \<noteq> []"
          "allLines (script_scenes s') = butlast (allLines (script_scenes s)) @
              [(last (allLines (script_scenes s)))\<lparr>line_text :=
                 line_text (last (allLines (script_scenes s))) @ '' '' @ trim x\<rparr>]"
      by blast
    then have "list_all P (allLines (script_scenes s'))"
    proof cases
      case same
      then show ?thesis using J by simp
    next
      case (push l)
      have "P l" unfolding P_def
        by (rule exI[of _ "[line_text l]"]) (use piece[OF push(2,3,4)] in simp)
      then show ?thesis using J push(1) by simp
    next
      case merge
      let ?xs = "allLines (script_scenes s)"
      from J merge(1) have "P (last ?xs)" by (auto simp: list_all_iff)
      then obtain ps where ps: "ps \<noteq> []" "line_text (last ?xs) = joinSpace ps"
        "list_all (pieceOfInput ls) ps" unfolding P_def by blast
      have "pieceOfInput ls (trim x)"
        by (rule piece) (use merge(2) occursIn_trim in \<open>simp_all add: trim_idem\<close>)
      then have "P ((last ?xs)\<lparr>line_text := line_text (last ?xs) @ '' '' @ trim x\<rparr>)"
        unfolding P_def using ps
        by (intro exI[of _ "ps @ [trim x]"]) (simp add: joinSpace_snoc)
      moreover have "list_all P ?xs" using J by simp
      ultimately show ?thesis unfolding merge(3) by (rule list_all_replace_last[rotated])
    qed
    then show ?thesis using s' ne' by simp
  qed
  ultimately have "\<exists>s'. forEach (processLine chars) initialState ls = Inr s' \<and> ?J s'"
    by (rule forEach_invariant_mem)
  then show ?thesis using run by auto
qed

lemma reached_texts_trimmed:
  assumes "forEach (processLine chars) initialState xs = Inr st"
  shows "textsTrimmed st"
proof -
  let ?J = "\<lambda>st. script_scenes st \<noteq> [] \<and> textsTrimmed st"
  have "?J initialState" by (simp add: initialState_def textsTrimmed_def allLines_def)
  moreover have "\<exists>s'. processLine chars s x = Inr s' \<and> ?J s'" if "?J s" for s x
  proof -
    from that have ne: "script_scenes s \<noteq> []" by simp
    from step_returns[OF ne, of chars x] obtain s' where s': "processLine chars s x = Inr s'" by blast
    from step_frame(1)[OF ne s'] textsTrimmed_step[OF ne _ s'] that show ?thesis using s' by simp
  qed
  ultimately have "\<exists>s'. forEach (processLine chars) initialState xs = Inr s' \<and> ?J s'"
    by (rule forEach_invariant)
  then show ?thesis using assms by auto
qed

text \<open>
  C9, as amended. For every input and every line of the script returned by
  \<^verbatim>\<open>analyzeScriptText\<close>, the text of the line is not empty and is trimmed: its first and
  its last character are no white space. The text is made of pieces of the input joined
  by single spaces, each piece a trimmed stretch of one input line taken as it stands;
  so the white space inside a piece is that of the input, and is not collapsed.
\<close>

theorem line_texts_trimmed:
  "\<exists>s. analyzeScriptText rawText = Inr s
       \<and> (\<forall>l \<in> set (allLines (scenes s)).
             line_text l \<noteq> [] \<and> trim (line_text l) = line_text l
             \<and> \<not> isSpace (hd (line_text l)) \<and> \<not> isSpace (last (line_text l))
             \<and> (\<exists>ps. line_text l = joinSpace ps
                    \<and> list_all (pieceOfInput (split_nl rawText)) ps))"
proof -
  let ?ls = "split_nl rawText"
  let ?chars = "buildCharacters (likelyCharacters ?ls)"
  from analyzeScriptText_returns[of rawText] obtain s where s: "analyzeScriptText rawText = Inr s"
    by blast
  then obtain st where st: "forEach (processLine ?chars) initialState ?ls = Inr st"
    "scenes s = script_scenes st"
    by (auto simp: analyzeScriptText_def Let_def split: sum.splits)
  note tt = reached_texts_trimmed[OF st(1)]
  note fi = texts_from_input[OF st(1)]
  have "line_text l \<noteq> [] \<and> trim (line_text l) = line_text l
        \<and> \<not> isSpace (hd (line_text l)) \<and> \<not> isSpace (last (line_text l))
        \<and> (\<exists>ps. line_text l = joinSpace ps \<and> list_all (pieceOfInput ?ls) ps)"
    if l: "l \<in> set (allLines (scenes s))" for l
  proof -
    from l tt have t: "line_text l \<noteq> []" "trim (line_text l) = line_text l"
      by (auto simp: st(2) textsTrimmed_def list_all_iff)
    then have "trim (line_text l) \<noteq> []" by simp
    from trim_ends[OF this] t have e: "\<not> isSpace (hd (line_text l))" "\<not> isSpace (last (line_text l))"
      by simp_all
    from l fi have "\<exists>ps. ps \<noteq> [] \<and> line_text l = joinSpace ps \<and> list_all (pieceOfInput ?ls) ps"
      by (auto simp: st(2) list_all_iff)
    then have "\<exists>ps. line_text l = joinSpace ps \<and> list_all (pieceOfInput ?ls) ps" by blast
    with t e show ?thesis by blast
  qed
  then show ?thesis using s by blast
qed

text \<open>
  A speaker line with white space, a no-break space among it, around its text and two
  spaces inside it, and a continuation line: the text stored is \<open>''x  y z''\<close>, made of
  the pieces \<open>''x  y''\<close> and \<open>''z''\<close>.
\<close>

theorem line_texts_trimmed_witness:
  "\<exists>s l. analyzeScriptText (''AB:'' @ [CHR 0xA0] @ '' x  y  '' @ [LF] @ '' z '' @ [LF] @ ''AB: w'') = Inr s
       \<and> l \<in> set (allLines (scenes s)) \<and> line_text l = ''x  y z''
       \<and> trim (line_text l) = line_text l
       \<and> \<not> isSpace (hd (line_text l)) \<and> \<not> isSpace (last (line_text l))
       \<and> line_text l = joinSpace [''x  y'', ''z'']
       \<and> list_all (pieceOfInput (split_nl (''AB:'' @ [CHR 0xA0] @ '' x  y  '' @ [LF] @ '' z '' @ [LF] @ ''AB: w'')))
            [''x  y'', ''z'']"
proof -
  let ?X = "''AB:'' @ [CHR 0xA0] @ '' x  y  '' @ [LF] @ '' z '' @ [LF] @ ''AB: w''"
  from line_texts_trimmed[of ?X] obtain s where s: "analyzeScriptText ?X = Inr s"
    "\<forall>l \<in> set (allLines (scenes s)). line_text l \<noteq> [] \<and> trim (line_text l) = line_text l
       \<and> \<not> isSpace (hd (line_text l)) \<and> \<not> isSpace (last (line_text l))
       \<and> (\<exists>ps. line_text l = joinSpace ps \<and> list_all (pieceOfInput (split_nl ?X)) ps)"
    by blast
  have "map line_text (allLines (scenes (projr (analyzeScriptText ?X)))) = [''x  y z'', ''w'']"
    by code_simp
  then have texts: "map line_text (allLines (scenes s)) = [''x  y z'', ''w'']" using s(1) by simp
  then have ne: "allLines (scenes s) \<noteq> []" by auto
  define l where "l = hd (allLines (scenes s))"
  have "line_text l = hd (map line_text (allLines (scenes s)))"
    unfolding l_def using ne by (simp add: hd_map)
  then have l: "l \<in> set (allLines (scenes s))" "line_text l = ''x  y z''"
    unfolding l_def using ne by (simp_all add: texts)
  from s(2)[rule_format, OF l(1)] have t: "trim (line_text l) = line_text l"
    "\<not> isSpace (hd (line_text l))" "\<not> isSpace (last (line_text l))" by simp_all
  have j: "line_text l = joinSpace [''x  y'', ''z'']" unfolding l(2) by code_simp
  have p: "list_all (pieceOfInput (split_nl ?X)) [''x  y'', ''z'']" by code_simp
  show ?thesis
    by (intro exI[of _ s] exI[of _ l] conjI) (fact s(1) l t j p)+
qed

text \<open>
  C9 as it was stated asks that every run of white space inside a text be a single
  space. The two spaces of \<^verbatim>\<open>AB: x  y\<close> stay in the text of the line.
\<close>

theorem whitespace_not_collapsed:
  "analyzeScriptText (''AB: x  y'' @ [LF] @ ''AB: z'') =
     Inr \<lparr>title = ''Copione Importato'',
          characters = [\<lparr>char_id = ''1'', char_name = ''AB''\<rparr>],
          scenes = [\<lparr>scene_id = ''1'', scene_name = ''Scena 1'',
                     lines = [\<lparr>line_id = ''1'', characterId = ''1'', line_text = ''x  y'',
                               sceneId = ''1'', isDirection = None\<rparr>,
                              \<lparr>line_id = ''2'', characterId = ''1'', line_text = ''z'',
                               sceneId = ''1'', isDirection = None\<rparr>]\<rparr>]\<rparr>
   \<and> \<not> whitespaceCollapsed ''x  y''"
  by code_simp

section \<open>The title\<close>

lemma titleCandidates_filter:
  "length cands < 2 \<Longrightarrow>
     titleCandidates cands ls = take 2 (cands @ filter titleCandidate (map trim ls))"
proof (induction ls arbitrary: cands)
  case Nil
  then show ?case by simp
next
  case (Cons l ls)
  show ?case
  proof (cases "titleCandidate (trim l)")
    case True
    show ?thesis
    proof (cases "length cands = 1")
      case True
      then show ?thesis using \<open>titleCandidate (trim l)\<close>
        by (simp add: titleCandidate_def Let_def)
    next
      case False
      then have e: "cands = []" using Cons.prems by (cases cands) auto
      then have "length (cands @ [trim l]) < 2" by simp
      from Cons.IH[OF this] show ?thesis using \<open>titleCandidate (trim l)\<close> e
        by (simp add: titleCandidate_def Let_def)
    qed
  next
    case False
    then show ?thesis using Cons.IH[OF Cons.prems] Cons.prems
      by (auto simp: titleCandidate_def Let_def)
  qed
qed

text \<open>
  The two tests of the source against the words of the rule: a text is its own
  upper-case form exactly when it has no lower-case letter, and the regular expression
  of the fallback finds exactly the name in the last segment of the text.
\<close>

lemma upperUnits_cases:
  fixes c :: char
  defines "n \<equiv> of_char c :: nat"
  shows "lowerCaseLetter c \<longleftrightarrow> (0x61 \<le> n \<and> n \<le> 0x7A) \<or> n = 0xB5 \<or> (0xDF \<le> n \<and> n \<noteq> 0xF7)"
    and "upperUnits c =
      (if 0x61 \<le> n \<and> n \<le> 0x7A then [n - 0x20]
       else if n = 0xB5 then [0x39C]
       else if n = 0xDF then [0x53, 0x53]
       else if n = 0xFF then [0x178]
       else if 0xE0 \<le> n \<and> n \<le> 0xFE \<and> n \<noteq> 0xF7 then [n - 0x20]
       else [n])"
    and "n < 256"
  unfolding n_def lowerCaseLetter_def upperUnits_def Let_def by simp_all

lemma upperUnits_fixed:
  assumes "\<not> lowerCaseLetter c"
  shows "upperUnits c = [of_char c]"
proof -
  define n where "n = (of_char c :: nat)"
  note f = upperUnits_cases[of c, folded n_def]
  have "upperUnits c = [n]" using assms unfolding f(1) f(2) using f(3) by (auto split: if_splits)
  then show ?thesis by (simp add: n_def)
qed

lemma upperUnits_changed:
  assumes "lowerCaseLetter c"
  shows "hd (upperUnits c) \<noteq> of_char c \<and> upperUnits c \<noteq> []"
proof -
  define n where "n = (of_char c :: nat)"
  note f = upperUnits_cases[of c, folded n_def]
  have "hd (upperUnits c) \<noteq> n \<and> upperUnits c \<noteq> []"
    using assms unfolding f(1) f(2) using f(3) by (auto split: if_splits)
  then show ?thesis by (simp add: n_def)
qed

lemma toUpperCase_units_iff: "toUpperCase s = units s \<longleftrightarrow> entirelyUppercase s"
proof (induction s)
  case Nil
  then show ?case by (simp add: toUpperCase_def units_def entirelyUppercase_def)
next
  case (Cons c cs)
  show ?case
  proof (cases "lowerCaseLetter c")
    case True
    from upperUnits_changed[OF True] obtain u us where u: "upperUnits c = u # us" "u \<noteq> of_char c"
      by (cases "upperUnits c") auto
    then show ?thesis using True
      by (simp add: toUpperCase_def units_def entirelyUppercase_def)
  next
    case False
    then show ?thesis using Cons upperUnits_fixed[OF False]
      by (simp add: toUpperCase_def units_def entirelyUppercase_def)
  qed
qed

lemma canonicalize_cases:
  fixes c :: char
  defines "n \<equiv> of_char c :: nat"
  shows "canonicalize c =
      (if 0x61 \<le> n \<and> n \<le> 0x7A then n - 0x20
       else if n = 0xB5 then 0x39C
       else if n = 0xFF then 0x178
       else if 0xE0 \<le> n \<and> n \<le> 0xFE \<and> n \<noteq> 0xF7 then n - 0x20
       else n)"
    and "n < 256"
  unfolding n_def canonicalize_def upperUnits_def Let_def by (auto split: list.splits)

lemma canonicalize_lower:
  assumes l: "(of_char l :: nat) = k" and k: "0x61 \<le> k" "k \<le> 0x7A"
    and u: "(of_char u :: nat) = k - 0x20"
  shows "(canonicalize x = canonicalize l) = (x = l \<or> x = u)"
proof -
  define n where "n = (of_char x :: nat)"
  note f = canonicalize_cases[of x, folded n_def]
  have cl: "canonicalize l = k - 0x20" using l k by (simp add: canonicalize_cases(1))
  have "(canonicalize x = k - 0x20) = (n = k \<or> n = k - 0x20)"
    unfolding f(1) using f(2) k by (auto split: if_splits)
  also have "\<dots> = (x = l \<or> x = u)"
  proof -
    have "(n = k) = (x = l)" unfolding n_def l[symmetric] by (simp only: of_char_eq_iff)
    moreover have "(n = k - 0x20) = (x = u)"
      unfolding n_def u[symmetric] by (simp only: of_char_eq_iff)
    ultimately show ?thesis by (simp only:)
  qed
  finally show ?thesis unfolding cl .
qed

lemma canonicalize_dot: "(canonicalize x = canonicalize CHR ''.'') = (x = CHR ''.'')"
proof -
  define n where "n = (of_char x :: nat)"
  note f = canonicalize_cases[of x, folded n_def]
  have d: "(of_char CHR ''.'' :: nat) = 0x2E" by simp
  have cl: "canonicalize CHR ''.'' = 0x2E" by (simp add: canonicalize_cases(1))
  have "(canonicalize x = 0x2E) = (n = 0x2E)"
    unfolding f(1) using f(2) by (auto split: if_splits)
  also have "\<dots> = (x = CHR ''.'')"
    unfolding n_def d[symmetric] by (simp only: of_char_eq_iff)
  finally show ?thesis unfolding cl .
qed

lemma sameLetter_extension:
  "sameLetter x CHR ''.'' = (x = CHR ''.'')"
  "sameLetter x CHR ''p'' = (x = CHR ''p'' \<or> x = CHR ''P'')"
  "sameLetter x CHR ''d'' = (x = CHR ''d'' \<or> x = CHR ''D'')"
  "sameLetter x CHR ''f'' = (x = CHR ''f'' \<or> x = CHR ''F'')"
  "sameLetter x CHR ''t'' = (x = CHR ''t'' \<or> x = CHR ''T'')"
  "sameLetter x CHR ''x'' = (x = CHR ''x'' \<or> x = CHR ''X'')"
  by (auto simp: sameLetter_def lowerAZ_def upperAZ_def)

lemma canonicalize_extension:
  assumes "y \<in> set ''.pdftx''"
  shows "(canonicalize x = canonicalize y) = sameLetter x y"
proof -
  from assms consider "y = CHR ''.''" | "y = CHR ''p''" | "y = CHR ''d''" | "y = CHR ''f''"
    | "y = CHR ''t''" | "y = CHR ''x''" by auto
  then show ?thesis
  proof cases
    case 1
    then show ?thesis by (simp only: canonicalize_dot sameLetter_extension)
  next
    case 2
    have "(canonicalize x = canonicalize CHR ''p'') = (x = CHR ''p'' \<or> x = CHR ''P'')"
      by (rule canonicalize_lower[where k = "0x70"]) simp_all
    then show ?thesis unfolding 2 by (simp only: sameLetter_extension)
  next
    case 3
    have "(canonicalize x = canonicalize CHR ''d'') = (x = CHR ''d'' \<or> x = CHR ''D'')"
      by (rule canonicalize_lower[where k = "0x64"]) simp_all
    then show ?thesis unfolding 3 by (simp only: sameLetter_extension)
  next
    case 4
    have "(canonicalize x = canonicalize CHR ''f'') = (x = CHR ''f'' \<or> x = CHR ''F'')"
      by (rule canonicalize_lower[where k = "0x66"]) simp_all
    then show ?thesis unfolding 4 by (simp only: sameLetter_extension)
  next
    case 5
    have "(canonicalize x = canonicalize CHR ''t'') = (x = CHR ''t'' \<or> x = CHR ''T'')"
      by (rule canonicalize_lower[where k = "0x74"]) simp_all
    then show ?thesis unfolding 5 by (simp only: sameLetter_extension)
  next
    case 6
    have "(canonicalize x = canonicalize CHR ''x'') = (x = CHR ''x'' \<or> x = CHR ''X'')"
      by (rule canonicalize_lower[where k = "0x78"]) simp_all
    then show ?thesis unfolding 6 by (simp only: sameLetter_extension)
  qed
qed

lemma map_eq_list_all2:
  assumes "\<And>x y. y \<in> set w \<Longrightarrow> (f x = f y) = R x y"
  shows "(map f e = map f w) = list_all2 R e w"
  using assms
proof (induction w arbitrary: e)
  case Nil
  then show ?case by simp
next
  case (Cons y w)
  show ?case
  proof (cases e)
    case Nil
    then show ?thesis by simp
  next
    case (Cons x e')
    have "(map f e' = map f w) = list_all2 R e' w" by (rule Cons.IH) (simp add: Cons.prems)
    then show ?thesis using Cons Cons.prems[of y x] by simp
  qed
qed

lemma extension_ignoring_case:
  "(map canonicalize e = map canonicalize ''.pdf'') = sameIgnoringCase e ''.pdf''"
  "(map canonicalize e = map canonicalize ''.txt'') = sameIgnoringCase e ''.txt''"
proof -
  show "(map canonicalize e = map canonicalize ''.pdf'') = sameIgnoringCase e ''.pdf''"
    unfolding sameIgnoringCase_def
    by (rule map_eq_list_all2) (rule canonicalize_extension, auto)
  show "(map canonicalize e = map canonicalize ''.txt'') = sameIgnoringCase e ''.txt''"
    unfolding sameIgnoringCase_def
    by (rule map_eq_list_all2) (rule canonicalize_extension, auto)
qed

lemma sameLetter_no_slash:
  assumes "sameLetter c y" "y \<in> set ''.pdftx''"
  shows "notSlash c"
  using assms by (auto simp: sameLetter_extension notSlash_def)

lemma extension_no_slash:
  assumes "sameIgnoringCase e ''.pdf'' \<or> sameIgnoringCase e ''.txt''"
  shows "length e = 4" and "\<forall>c \<in> set e. notSlash c"
proof -
  from assms obtain w where w: "list_all2 sameLetter e w" "length w = 4" "set w \<subseteq> set ''.pdftx''"
    unfolding sameIgnoringCase_def by fastforce
  from w(1,2) show "length e = 4" by (simp add: list_all2_lengthD)
  show "\<forall>c \<in> set e. notSlash c"
  proof
    fix c assume "c \<in> set e"
    then obtain i where i: "i < length e" "e ! i = c" by (auto simp: in_set_conv_nth)
    then have "sameLetter c (w ! i)" "i < length w"
      using w(1) by (auto simp: list_all2_conv_all_nth)
    moreover have "w ! i \<in> set ''.pdftx''" using \<open>i < length w\<close> w(3) nth_mem by blast
    ultimately show "notSlash c" by (intro sameLetter_no_slash)
  qed
qed

lemma fileNameMatch_stem: "fileNameMatch s = fileNameStem s"
proof (cases "4 \<le> length s \<and> (sameIgnoringCase (drop (length s - 4) s) ''.pdf''
                                 \<or> sameIgnoringCase (drop (length s - 4) s) ''.txt'')")
  case True
  let ?e = "drop (length s - 4) s"
  let ?stem = "take (length s - 4) s"
  let ?base = "rev (takeWhile (\<lambda>c. c \<noteq> CHR ''/'' \<and> c \<noteq> CHR 0x5C) (rev ?stem))"
  have s: "s = ?stem @ ?e" by simp
  have e: "length ?e = 4" "\<forall>c \<in> set ?e. notSlash c"
    using extension_no_slash[of ?e] True by blast+
  have ns: "(\<lambda>c. c \<noteq> CHR ''/'' \<and> c \<noteq> CHR 0x5C) = notSlash" by (simp add: notSlash_def fun_eq_iff)
  have "takeWhile notSlash (rev s) = rev ?e @ takeWhile notSlash (rev ?stem)"
  proof -
    have "rev s = rev ?e @ rev ?stem" by (subst s) (simp only: rev_append)
    moreover have "takeWhile notSlash (rev ?e @ rev ?stem) = rev ?e @ takeWhile notSlash (rev ?stem)"
      by (rule takeWhile_append2) (use e(2) in simp)
    ultimately show ?thesis by (simp only:)
  qed
  then have seg: "lastSegment s = ?base @ ?e"
    by (simp add: lastSegment_def ns)
  have "fileNameStem s = (if ?base \<noteq> [] then Some ?base else None)"
    using True e(1) unfolding fileNameStem_def seg by (simp add: Let_def)
  moreover have "fileNameMatch s = (if ?base \<noteq> [] then Some ?base else None)"
    unfolding fileNameMatch_def Let_def extension_ignoring_case using True by simp
  ultimately show ?thesis by simp
next
  case False
  have m: "fileNameMatch s = None"
    unfolding fileNameMatch_def Let_def extension_ignoring_case using False by auto
  define seg where "seg = lastSegment s"
  have "\<not> (4 < length seg
           \<and> (sameIgnoringCase (drop (length seg - 4) seg) ''.pdf''
              \<or> sameIgnoringCase (drop (length seg - 4) seg) ''.txt''))"
  proof
    assume a: "4 < length seg
           \<and> (sameIgnoringCase (drop (length seg - 4) seg) ''.pdf''
              \<or> sameIgnoringCase (drop (length seg - 4) seg) ''.txt'')"
    have "rev s = takeWhile notSlash (rev s) @ dropWhile notSlash (rev s)" by simp
    then have "s = rev (dropWhile notSlash (rev s)) @ seg"
      unfolding seg_def lastSegment_def by (metis rev_append rev_rev_ident)
    then obtain p where p: "s = p @ seg" by blast
    from a have four: "4 < length seg" by blast
    have "length (p @ seg) - 4 = length p + (length seg - 4)" using four by simp
    then have "drop (length (p @ seg) - 4) (p @ seg) = drop (length seg - 4) seg"
      by simp
    then have d: "drop (length s - 4) s = drop (length seg - 4) seg"
      unfolding p[symmetric] .
    have "length seg \<le> length s" using arg_cong[OF p, of length] by simp
    then show False using a False unfolding d by simp
  qed
  then have "fileNameStem s = None" by (simp add: fileNameStem_def Let_def seg_def)
  with m show ?thesis by simp
qed

lemma title_selection: "extractScriptTitle rawText ls = chooseTitle rawText ls"
proof -
  let ?c = "take 2 (filter titleCandidate (map trim (take 10 ls)))"
  have "take (min 10 (length ls)) ls = take 10 ls" by (simp add: min_def)
  then have c: "titleCandidates [] (take (min 10 (length ls)) ls) = ?c"
    using titleCandidates_filter[of "[]" "take 10 ls"] by simp
  show ?thesis
  proof (cases ?c)
    case Nil
    then show ?thesis
      by (simp add: extractScriptTitle_def chooseTitle_def c separatorsToSpaces_def Let_def
          fileNameMatch_stem split: option.splits)
  next
    case (Cons a r)
    note outer = Cons
    show ?thesis
    proof (cases r)
      case Nil
      then show ?thesis using outer
        by (simp add: extractScriptTitle_def chooseTitle_def c Let_def)
    next
      case (Cons b r')
      then show ?thesis using outer
        by (simp add: extractScriptTitle_def chooseTitle_def c Let_def toUpperCase_units_iff)
    qed
  qed
qed

lemma title_examples:
  "extractScriptTitle [] [[]] = ''Copione Importato''"
  "extractScriptTitle [] [''HAMLET'', ''MACBETH''] = ''HAMLET''"
  "extractScriptTitle [] [''1605'', ''HAMLET''] = ''1605''"
  "extractScriptTitle (''x:/play.TXT'' @ [LF]) [''x:/play.TXT'', []] = ''Copione Importato''"
  by code_simp+

text \<open>
  C7. Title extraction takes up to two candidates (trimmed lines that are not empty,
  shorter than 60 characters and without a colon) from at most the first ten lines. If
  there is a second candidate, it is entirely uppercase (it has no lower-case letter)
  and the first is not, the second is the title; otherwise the first. With no candidate
  the title is made of the file name that the first hundred characters of the raw text
  end in, if they end in one: what stands between the last slash or backslash and a
  final \<^verbatim>\<open>.pdf\<close> or \<^verbatim>\<open>.txt\<close>, in any case, with a space in the place of every
  underscore and hyphen; and failing that the title is the fixed
  \<^verbatim>\<open>Copione Importato\<close>. This is the title of the script that \<^verbatim>\<open>analyzeScriptText\<close>
  returns. So an upper-case second candidate wins over \<^verbatim>\<open>by Someone\<close> and over a first
  candidate whose only lower-case letter is an accented one, a first candidate is kept
  before a second in mixed case, \<^verbatim>\<open>C:/docs/my_play-v2.Pdf\<close> gives \<^verbatim>\<open>my play v2\<close>, and a
  text of one no-break space gives the fixed title.
\<close>

theorem title_of_script:
  "extractScriptTitle rawText ls = chooseTitle rawText ls
   \<and> (\<exists>s. analyzeScriptText rawText = Inr s \<and> title s = chooseTitle rawText (split_nl rawText))
   \<and> extractScriptTitle [] [''by Someone'', [], ''HAMLET'', ''other''] = ''HAMLET''
   \<and> extractScriptTitle [] [''CAFF'' @ [CHR 0xE9], ''HAMLET''] = ''HAMLET''
   \<and> extractScriptTitle [] [''Hamlet'', ''Macbeth''] = ''Hamlet''
   \<and> extractScriptTitle ''C:/docs/my_play-v2.Pdf'' [''C:/docs/my_play-v2.Pdf''] = ''my play v2''
   \<and> extractScriptTitle [CHR 0xA0] [[CHR 0xA0]] = ''Copione Importato''"
proof -
  from analyzeScriptText_returns[of rawText] obtain s where s: "analyzeScriptText rawText = Inr s"
    by blast
  then have "title s = extractScriptTitle rawText (split_nl rawText)"
    by (auto simp: analyzeScriptText_def Let_def split: sum.splits)
  then have script: "\<exists>s. analyzeScriptText rawText = Inr s
      \<and> title s = chooseTitle rawText (split_nl rawText)"
    using s by (simp add: title_selection)
  have e1: "extractScriptTitle [] [''by Someone'', [], ''HAMLET'', ''other''] = ''HAMLET''"
    by code_simp
  have e2: "extractScriptTitle [] [''CAFF'' @ [CHR 0xE9], ''HAMLET''] = ''HAMLET''"
    by code_simp
  have e3: "extractScriptTitle [] [''Hamlet'', ''Macbeth''] = ''Hamlet''"
    by code_simp
  have e4: "extractScriptTitle ''C:/docs/my_play-v2.Pdf'' [''C:/docs/my_play-v2.Pdf''] = ''my play v2''"
    by code_simp
  have e5: "extractScriptTitle [CHR 0xA0] [[CHR 0xA0]] = ''Copione Importato''"
    by code_simp
  show ?thesis by (intro conjI) (fact title_selection script e1 e2 e3 e4 e5)+
qed

section \<open>The structure estimator\<close>

lemma setAdd_fold:
  "distinct acc \<Longrightarrow>
     distinct (fold (\<lambda>m s. setAdd (f m) s) ms acc)
     \<and> set (fold (\<lambda>m s. setAdd (f m) s) ms acc) = set acc \<union> f ` set ms"
  by (induction ms arbitrary: acc) (auto simp: setAdd_def)

text \<open>
  What the report is made of: the number of matches of the pattern in the text, the
  distinct names of the matches, their number, and the verdict, which holds exactly
  when there are more than three matches and at least two names.
\<close>

lemma detectScriptStructure_report:
  "dialogueLines (detectScriptStructure text) = length (matchAll True text)
   \<and> distinct (characterNames (detectScriptStructure text))
   \<and> set (characterNames (detectScriptStructure text))
        = set (map (\<lambda>m. trim (butlast m)) (matchAll True text))
   \<and> characterCount (detectScriptStructure text)
        = card (set (map (\<lambda>m. trim (butlast m)) (matchAll True text)))
   \<and> isLikelyScript (detectScriptStructure text)
        = (3 < dialogueLines (detectScriptStructure text)
           \<and> 2 \<le> characterCount (detectScriptStructure text))"
proof -
  let ?names = "fold (\<lambda>m s. setAdd (trim (butlast m)) s) (matchAll True text) []"
  have d: "distinct ?names" "set ?names = (\<lambda>m. trim (butlast m)) ` set (matchAll True text)"
    using setAdd_fold[of "[]" "\<lambda>m. trim (butlast m)" "matchAll True text"] by simp_all
  have "length ?names = card (set ?names)" using d(1) by (simp add: distinct_card)
  then show ?thesis using d by (simp add: detectScriptStructure_def Let_def)
qed

text \<open>
  C8. The estimator is to count the lines that match \<^verbatim>\<open>NAME:\<close> at their start, to
  collect the distinct names matched, and to find a script likely exactly when more
  than three lines match and at least two names are distinct. The pattern runs over
  the whole text, where \<^verbatim>\<open>\s\<close> also matches a line break, so a line of letters
  without a colon is swallowed into the name of the speaker line below it. In the text
  evaluated here four lines match, all with the one name \<open>Al\<close> (the second conjunct
  applies the same pattern line by line, as the character recognition service does);
  the estimator reports two names, the first running from the title line into the next
  line, and finds a script likely.
\<close>

theorem estimator_counts_spanning_match:
  "detectScriptStructure
     (''Title'' @ [LF] @ ''Al: a'' @ [LF] @ ''Al: b'' @ [LF] @ ''Al: c'' @ [LF] @ ''Al: d'')
   = \<lparr>isLikelyScript = True, characterCount = 2,
      characterNames = [''Title'' @ [LF] @ ''Al'', ''Al''],
      dialogueLines = 4\<rparr>
   \<and> map (exec matchNameColon)
       (split_nl (''Title'' @ [LF] @ ''Al: a'' @ [LF] @ ''Al: b'' @ [LF] @ ''Al: c'' @ [LF] @ ''Al: d''))
     = [None, Some ''Al'', Some ''Al'', Some ''Al'', Some ''Al'']"
  by code_simp

text \<open>
  The scenario of the specification, five matching lines with three distinct names,
  below a title line: four names are reported. And a text none of whose lines matches,
  with one match reported.
\<close>

lemma estimator_spanning_examples:
  "detectScriptStructure
     (''Intro'' @ [LF] @ ''Al: a'' @ [LF] @ ''Al: b'' @ [LF] @ ''Bo: c'' @ [LF] @ ''Cy: d'' @ [LF] @ ''Al: e'')
   = \<lparr>isLikelyScript = True, characterCount = 4,
      characterNames = [''Intro'' @ [LF] @ ''Al'', ''Al'', ''Bo'', ''Cy''],
      dialogueLines = 5\<rparr>"
  "detectScriptStructure (''Hello'' @ [LF] @ ''world: x'')
   = \<lparr>isLikelyScript = False, characterCount = 1,
      characterNames = [''Hello'' @ [LF] @ ''world''], dialogueLines = 1\<rparr>"
  "map (exec matchNameColon) (split_nl (''Hello'' @ [LF] @ ''world: x'')) = [None, None]"
  by code_simp+

text \<open>Without the title line the same lines give the report the specification describes.\<close>

lemma estimator_scenario:
  "detectScriptStructure
     (''Al: a'' @ [LF] @ ''Al: b'' @ [LF] @ ''Bo: c'' @ [LF] @ ''Cy: d'' @ [LF] @ ''Al: e'')
   = \<lparr>isLikelyScript = True, characterCount = 3,
      characterNames = [''Al'', ''Bo'', ''Cy''], dialogueLines = 5\<rparr>"
  by code_simp

section \<open>The speaker catalog\<close>

lemma fold_option_map_filter:
  "fold (\<lambda>x m. case f x of None \<Rightarrow> m | Some n \<Rightarrow> g n m) xs m = fold g (List.map_filter f xs) m"
  by (induction xs arbitrary: m) (auto simp: map_filter_simps split: option.splits)

lemma fold_fold_concat: "fold (\<lambda>x. fold g (h x)) xs m = fold g (concat (map h xs)) m"
  by (induction xs arbitrary: m) auto

lemma fold_tallyLine:
  "fold tallyLine ls m = fold mention (detectedNames ls) m"
  by (induction ls arbitrary: m) (simp_all add: detectedNames_def tallyLine_def fold_option_map_filter)

lemma characterMentions_fold:
  "characterMentions ls = fold mention (detectedNames ls) []"
  by (simp add: characterMentions_def fold_tallyLine)

lemma firstIndex_less: "n \<in> set ds \<Longrightarrow> firstIndex ds n < length ds"
  unfolding firstIndex_def by (induction ds) auto

lemma firstIndex_snoc_old: "n \<in> set ds \<Longrightarrow> firstIndex (ds @ [d]) n = firstIndex ds n"
  unfolding firstIndex_def by (induction ds) auto

lemma firstIndex_snoc_new: "d \<notin> set ds \<Longrightarrow> firstIndex (ds @ [d]) d = length ds"
  unfolding firstIndex_def by (induction ds) auto

lemma mention_fold_facts:
  "distinct (map fst (fold mention ds []))
   \<and> set (map fst (fold mention ds [])) = set ds
   \<and> (\<forall>n \<in> set ds. map_of (fold mention ds []) n = Some (count_list ds n))
   \<and> sorted_wrt (\<lambda>a b. firstIndex ds a < firstIndex ds b) (map fst (fold mention ds []))"
proof (induction ds rule: rev_induct)
  case Nil
  then show ?case by simp
next
  case (snoc d ds)
  let ?M = "fold mention ds []"
  let ?c = "case map_of ?M d of None \<Rightarrow> 0 | Some c \<Rightarrow> c"
  have M': "fold mention (ds @ [d]) [] = AList.update d (?c + 1) ?M"
    by (simp add: mention_def)
  have c: "?c = count_list ds d"
  proof (cases "d \<in> set ds")
    case True
    then show ?thesis using snoc by simp
  next
    case False
    then have "d \<notin> fst ` set ?M" using snoc by simp
    then have "map_of ?M d = None" by (simp add: map_of_eq_None_iff)
    then show ?thesis using False by simp
  qed
  have 1: "distinct (map fst (fold mention (ds @ [d]) []))"
    unfolding M' using snoc by (intro distinct_update) simp
  have 2: "set (map fst (fold mention (ds @ [d]) [])) = set (ds @ [d])"
    unfolding M' using snoc by (auto simp: update_keys)
  have 3: "\<forall>n \<in> set (ds @ [d]). map_of (fold mention (ds @ [d]) []) n = Some (count_list (ds @ [d]) n)"
    unfolding M' using snoc c by (auto simp: update_conv')
  have 4: "sorted_wrt (\<lambda>a b. firstIndex (ds @ [d]) a < firstIndex (ds @ [d]) b)
             (map fst (fold mention (ds @ [d]) []))"
  proof -
    have old: "sorted_wrt (\<lambda>a b. firstIndex (ds @ [d]) a < firstIndex (ds @ [d]) b) (map fst ?M)"
    proof (rule sorted_wrt_mono_rel[where P = "\<lambda>a b. firstIndex ds a < firstIndex ds b"])
      show "sorted_wrt (\<lambda>a b. firstIndex ds a < firstIndex ds b) (map fst ?M)" using snoc by simp
    next
      fix x y assume "x \<in> set (map fst ?M)" "y \<in> set (map fst ?M)"
        "firstIndex ds x < firstIndex ds y"
      then show "firstIndex (ds @ [d]) x < firstIndex (ds @ [d]) y"
        using snoc by (simp add: firstIndex_snoc_old)
    qed
    show ?thesis
    proof (cases "d \<in> set ds")
      case True
      then show ?thesis unfolding M' using old snoc by (simp add: update_keys)
    next
      case False
      have "\<forall>x \<in> set ds. firstIndex (ds @ [d]) x < firstIndex (ds @ [d]) d"
      proof
        fix x assume "x \<in> set ds"
        then show "firstIndex (ds @ [d]) x < firstIndex (ds @ [d]) d"
          using False by (simp add: firstIndex_snoc_old firstIndex_snoc_new firstIndex_less)
      qed
      then show ?thesis unfolding M' using old snoc False
        by (simp add: update_keys sorted_wrt_append)
    qed
  qed
  from 1 2 3 4 show ?case by blast
qed

text \<open>An insertion sort is stable: equal keys keep the order of the input.\<close>

lemma insort_key_stable:
  assumes "sorted_wrt (\<lambda>x y. f x < f y \<or> (f x = f y \<and> p x < p y)) ys"
    and "\<forall>y \<in> set ys. p x < p y"
  shows "sorted_wrt (\<lambda>x y. f x < f y \<or> (f x = f y \<and> p x < p y)) (insort_key f x ys)"
  using assms
proof (induction ys)
  case Nil
  then show ?case by simp
next
  case (Cons y ys)
  show ?case
  proof (cases "f x \<le> f y")
    case True
    then show ?thesis using Cons.prems by (auto simp: less_le)
  next
    case False
    then show ?thesis using Cons by (auto simp: set_insort_key)
  qed
qed

lemma sort_key_stable_order:
  fixes f :: "'a \<Rightarrow> 'k::linorder" and p :: "'a \<Rightarrow> nat"
  assumes "sorted_wrt (\<lambda>x y. p x < p y) xs"
  shows "sorted_wrt (\<lambda>x y. f x < f y \<or> (f x = f y \<and> p x < p y)) (sort_key f xs)"
  using assms
proof (induction xs)
  case Nil
  then show ?case by simp
next
  case (Cons x xs)
  then show ?case by (auto intro!: insort_key_stable)
qed

lemma detect_Some: "detect line pat = Some n \<Longrightarrow> 1 < length n \<and> \<not> isCommonWord n"
  by (auto simp: detect_def Let_def split: option.splits if_splits)

lemma detectedNames_kept:
  assumes "n \<in> set (detectedNames ls)"
  shows "1 < length n \<and> \<not> isCommonWord n"
proof -
  from assms obtain line pat where "detect line pat = Some n"
    by (auto simp: detectedNames_def map_filter_def)
  then show ?thesis by (rule detect_Some)
qed

lemma mentions_entries:
  assumes "e \<in> set (characterMentions ls)"
  shows "fst e \<in> set (detectedNames ls)" and "snd e = tally ls (fst e)"
proof -
  let ?ds = "detectedNames ls"
  note F = mention_fold_facts[of ?ds, folded characterMentions_fold]
  from assms have "fst e \<in> set (map fst (characterMentions ls))" by simp
  then show in_ds: "fst e \<in> set ?ds" using F by simp
  have "map_of (characterMentions ls) (fst e) = Some (snd e)"
    using F assms by simp
  then show "snd e = tally ls (fst e)" using F in_ds by (simp add: tally_def)
qed

lemma mentions_complete:
  assumes "n \<in> set (detectedNames ls)"
  shows "(n, tally ls n) \<in> set (characterMentions ls)"
proof -
  note F = mention_fold_facts[of "detectedNames ls", folded characterMentions_fold]
  from F assms have "map_of (characterMentions ls) n = Some (tally ls n)"
    by (simp add: tally_def)
  then show ?thesis by (rule map_of_SomeD)
qed

lemma likely_names_set:
  "set (map fst (likelyCharacters ls)) = {n. 2 \<le> tally ls n}"
proof (intro set_eqI iffI)
  fix n assume "n \<in> set (map fst (likelyCharacters ls))"
  then obtain e where "e \<in> set (characterMentions ls)" "2 \<le> snd e" "fst e = n"
    by (auto simp: likelyCharacters_def)
  then show "n \<in> {n. 2 \<le> tally ls n}" using mentions_entries(2)[of e ls] by simp
next
  fix n assume "n \<in> {n. 2 \<le> tally ls n}"
  then have t: "2 \<le> tally ls n" by simp
  then have "n \<in> set (detectedNames ls)"
    unfolding tally_def by (metis count_notin not_numeral_le_zero)
  from mentions_complete[OF this] t
  have "(n, tally ls n) \<in> set (likelyCharacters ls)" by (simp add: likelyCharacters_def)
  then show "n \<in> set (map fst (likelyCharacters ls))" by force
qed

lemma likely_names_distinct: "distinct (map fst (likelyCharacters ls))"
proof -
  note F = mention_fold_facts[of "detectedNames ls", folded characterMentions_fold]
  then have "distinct (map fst (filter (\<lambda>e. 2 \<le> snd e) (characterMentions ls)))"
    by (simp add: distinct_map_filter)
  then show ?thesis
    unfolding likelyCharacters_def by (simp add: distinct_map)
qed

lemma likely_names_sorted:
  "sorted_wrt (\<lambda>a b. tally ls b < tally ls a
                  \<or> (tally ls a = tally ls b \<and> firstSeen ls a < firstSeen ls b))
     (map fst (likelyCharacters ls))"
proof -
  let ?ds = "detectedNames ls"
  let ?p = "\<lambda>e. firstIndex ?ds (fst e)"
  let ?f = "\<lambda>e::string \<times> nat. - int (snd e)"
  note F = mention_fold_facts[of ?ds, folded characterMentions_fold]
  then have "sorted_wrt (\<lambda>x y. ?p x < ?p y) (characterMentions ls)"
    by (simp add: sorted_wrt_map)
  then have "sorted_wrt (\<lambda>x y. ?p x < ?p y) (filter (\<lambda>e. 2 \<le> snd e) (characterMentions ls))"
    by (rule sorted_wrt_filter)
  then have s: "sorted_wrt (\<lambda>x y. ?f x < ?f y \<or> (?f x = ?f y \<and> ?p x < ?p y)) (likelyCharacters ls)"
    unfolding likelyCharacters_def by (rule sort_key_stable_order)
  have "sorted_wrt (\<lambda>x y. tally ls (fst y) < tally ls (fst x)
           \<or> (tally ls (fst x) = tally ls (fst y) \<and> firstSeen ls (fst x) < firstSeen ls (fst y)))
          (likelyCharacters ls)"
  proof (rule sorted_wrt_mono_rel[OF _ s])
    fix x y assume "x \<in> set (likelyCharacters ls)" "y \<in> set (likelyCharacters ls)"
      and r: "?f x < ?f y \<or> (?f x = ?f y \<and> ?p x < ?p y)"
    then have "x \<in> set (characterMentions ls)" "y \<in> set (characterMentions ls)"
      by (simp_all add: likelyCharacters_def)
    then have "snd x = tally ls (fst x)" "snd y = tally ls (fst y)"
      by (simp_all add: mentions_entries(2))
    then show "tally ls (fst y) < tally ls (fst x)
           \<or> (tally ls (fst x) = tally ls (fst y) \<and> firstSeen ls (fst x) < firstSeen ls (fst y))"
      using r by (auto simp: firstSeen_def)
  qed
  then show ?thesis by (simp add: sorted_wrt_map)
qed

text \<open>
  C3, as amended. The character catalog of the script returned by
  \<^verbatim>\<open>analyzeScriptText\<close> holds exactly the detected names whose tally over the whole
  document is at least 2, where the tally counts one detection for every line and
  pattern that yields the name, names of length 1 or less and common words being
  discarded before. The names are distinct and ordered by falling tally, names of equal
  tally in the order in which they were first detected; the ids are \<open>''1''\<close>,
  \<open>''2''\<close> and so on in that order. In particular a name detected exactly once never
  appears among the characters.
\<close>

theorem catalog_by_tally:
  "\<exists>s. analyzeScriptText rawText = Inr s
     \<and> set (map char_name (characters s)) = {n. 2 \<le> tally (split_nl rawText) n}
     \<and> distinct (map char_name (characters s))
     \<and> sorted_wrt (\<lambda>a b. tally (split_nl rawText) b < tally (split_nl rawText) a
                      \<or> (tally (split_nl rawText) a = tally (split_nl rawText) b
                         \<and> firstSeen (split_nl rawText) a < firstSeen (split_nl rawText) b))
         (map char_name (characters s))
     \<and> map char_id (characters s) = map toString [1..<Suc (length (characters s))]
     \<and> (\<forall>n \<in> set (map char_name (characters s)). 1 < length n \<and> \<not> isCommonWord n)
     \<and> (\<forall>n. tally (split_nl rawText) n = 1 \<longrightarrow> n \<notin> set (map char_name (characters s)))"
proof -
  let ?ls = "split_nl rawText"
  from analyzeScriptText_returns[of rawText] obtain s where s: "analyzeScriptText rawText = Inr s"
    by blast
  then have c: "characters s = buildCharacters (likelyCharacters ?ls)"
    by (rule analyzeScriptText_characters)
  have names: "map char_name (characters s) = map fst (likelyCharacters ?ls)"
    unfolding c by (rule buildCharacters_names)
  have len: "length (characters s) = length (likelyCharacters ?ls)"
    using arg_cong[OF names, of length] by simp
  have set_eq: "set (map char_name (characters s)) = {n. 2 \<le> tally ?ls n}"
    unfolding names by (rule likely_names_set)
  have kept: "\<forall>n \<in> set (map char_name (characters s)). 1 < length n \<and> \<not> isCommonWord n"
  proof
    fix n assume "n \<in> set (map char_name (characters s))"
    then have "2 \<le> tally ?ls n" unfolding set_eq by simp
    then have "n \<in> set (detectedNames ?ls)"
      unfolding tally_def by (metis count_notin not_numeral_le_zero)
    then show "1 < length n \<and> \<not> isCommonWord n" by (rule detectedNames_kept)
  qed
  have once: "\<forall>n. tally ?ls n = 1 \<longrightarrow> n \<notin> set (map char_name (characters s))"
    unfolding set_eq by simp
  have ids: "map char_id (characters s) = map toString [1..<Suc (length (characters s))]"
    unfolding len unfolding c by (rule buildCharacters_ids)
  show ?thesis
    using s set_eq kept once ids likely_names_distinct[of ?ls] likely_names_sorted[of ?ls]
    unfolding names[symmetric] by blast
qed

text \<open>
  Five speaker lines: \<open>AB\<close> and \<open>CD\<close> are detected twice each and \<open>EF\<close> once.
\<close>

theorem catalog_by_tally_witness:
  "tally (split_nl (''AB: x'' @ [LF] @ ''CD: y'' @ [LF] @ ''CD: z'' @ [LF] @ ''AB: w'' @ [LF] @ ''EF: q''))
     ''EF'' = 1
   \<and> (\<exists>s. analyzeScriptText
            (''AB: x'' @ [LF] @ ''CD: y'' @ [LF] @ ''CD: z'' @ [LF] @ ''AB: w'' @ [LF] @ ''EF: q'') = Inr s
        \<and> map char_name (characters s) = [''AB'', ''CD'']
        \<and> map char_id (characters s) = [''1'', ''2'']
        \<and> ''EF'' \<notin> set (map char_name (characters s)))"
proof -
  let ?X = "''AB: x'' @ [LF] @ ''CD: y'' @ [LF] @ ''CD: z'' @ [LF] @ ''AB: w'' @ [LF] @ ''EF: q''"
  from catalog_by_tally[of ?X] obtain s where s: "analyzeScriptText ?X = Inr s"
    "\<forall>n. tally (split_nl ?X) n = 1 \<longrightarrow> n \<notin> set (map char_name (characters s))"
    by blast
  have t: "tally (split_nl ?X) ''EF'' = 1" by code_simp
  from s(2)[rule_format, OF t] have absent: "''EF'' \<notin> set (map char_name (characters s))" .
  have "map char_name (characters (projr (analyzeScriptText ?X))) = [''AB'', ''CD'']
      \<and> map char_id (characters (projr (analyzeScriptText ?X))) = [''1'', ''2'']"
    by code_simp
  then have n: "map char_name (characters s) = [''AB'', ''CD'']"
    and i: "map char_id (characters s) = [''1'', ''2'']"
    using s(1) by simp_all
  show ?thesis by (intro conjI exI[of _ s]) (fact t s(1) n i absent)+
qed

text \<open>
  C3 as it was stated has a name that occurs exactly once anywhere in the document
  never appear among the characters. \<^verbatim>\<open>parseScript\<close> keeps no tally: it lists a name
  at its first speaker line, so \<open>BOB\<close>, written once, is a character of its script.
  And in \<^verbatim>\<open>analyzeScriptText\<close> the tally counts detections, not places in the text:
  behind a carriage return inside a line the second and the third pattern both find
  the one \<open>AB\<close> of the document, which reaches the threshold.
\<close>

theorem single_mention_cataloged:
  "parseScript ''BOB: hi'' =
     Inr \<lparr>title = [], characters = [\<lparr>char_id = ''1'', char_name = ''BOB''\<rparr>],
          scenes = [\<lparr>scene_id = ''1'', scene_name = ''Scene 1'',
                     lines = [\<lparr>line_id = ''1'', characterId = ''1'', line_text = ''hi'',
                               sceneId = ''1'', isDirection = None\<rparr>]\<rparr>]\<rparr>
   \<and> occurrences ''BOB'' ''BOB: hi'' = 1
   \<and> analyzeScriptText (''AB'' @ [CR] @ ''('') =
     Inr \<lparr>title = ''AB'' @ [CR] @ ''('', characters = [\<lparr>char_id = ''1'', char_name = ''AB''\<rparr>],
          scenes = [\<lparr>scene_id = ''1'', scene_name = ''Scena 1'',
                     lines = [\<lparr>line_id = ''1'', characterId = ''0'',
                               line_text = ''AB'' @ [CR] @ ''('',
                               sceneId = ''1'', isDirection = Some True\<rparr>]\<rparr>]\<rparr>
   \<and> occurrences ''AB'' (''AB'' @ [CR] @ ''('') = 1"
  by code_simp

text \<open>The detections on that line, pattern by pattern, and the tallies of both names.\<close>

lemma single_mention_tallies:
  "map (detect (''AB'' @ [CR] @ ''('')) characterPatterns = [None, Some ''AB'', Some ''AB'']"
  "tally (split_nl (''AB'' @ [CR] @ ''('')) ''AB'' = 2"
  "tally (split_nl ''BOB: hi'') ''BOB'' = 1"
  by code_simp+

section \<open>The parser service on a cue without text\<close>

text \<open>
  C1. The structuring engine is to return a script for every input and never to raise.
  \<^verbatim>\<open>analyzeScriptText\<close> does (\<open>analyzeScriptText_returns\<close>,
  \<open>analyzeScriptText_worst_case\<close> and \<open>characters_empty_iff\<close> above).
  \<^verbatim>\<open>parseScript\<close>, which the home screen calls, does not: a speaker cue with no text
  of its own leaves the scene without a line, and the continuation branch then reads
  the \<^verbatim>\<open>text\<close> of the last element of an empty list, a \<^verbatim>\<open>TypeError\<close>. The sibling
  guards that read with \<^verbatim>\<open>previousScene.lines.length > 0\<close>.
\<close>

theorem parseScript_raises:
  "parseScript (''BOB:'' @ [LF] @ ''hello'') = Inl TypeError"
  by code_simp

text \<open>The run step by step, and the sibling on the same input.\<close>

lemma parseScript_cue_then_text:
  "filter (\<lambda>l. l \<noteq> []) (map trim (split_nl (''BOB:'' @ [LF] @ ''hello''))) = [''BOB:'', ''hello'']"
  "parseLine \<lparr>p_characters = [], p_currentCharacter = None, p_lineCounter = 0, p_lines = []\<rparr> ''BOB:''
     = Inr \<lparr>p_characters = [\<lparr>char_id = ''1'', char_name = ''BOB''\<rparr>],
            p_currentCharacter = Some ''BOB'', p_lineCounter = 0, p_lines = []\<rparr>"
  "parseLine \<lparr>p_characters = [\<lparr>char_id = ''1'', char_name = ''BOB''\<rparr>],
            p_currentCharacter = Some ''BOB'', p_lineCounter = 0, p_lines = []\<rparr> ''hello''
     = Inl TypeError"
  "\<exists>s. analyzeScriptText (''BOB:'' @ [LF] @ ''hello'') = Inr s"
  by (code_simp, code_simp, code_simp, rule exI, code_simp)

section \<open>White space and letters of Latin-1\<close>

text \<open>
  The engine on texts with a no-break space or an accented letter: a name with a
  no-break space in it is cataloged; a no-break space at the ends of a text is trimmed,
  and a line of one no-break space is blank, so it is no title candidate and no
  continuation; a marker is met behind a no-break space and with one after its keyword;
  upper-casing reaches the accented letters, and takes sharp s, the micro sign and
  \<open>y\<close> with diaeresis out of Latin-1.
\<close>

lemma latin1_examples:
  "map char_name (characters (projr (analyzeScriptText
      (''Al'' @ [CHR 0xA0] @ ''Bo: a'' @ [LF] @ ''Al'' @ [CHR 0xA0] @ ''Bo: b''))))
     = [''Al'' @ [CHR 0xA0] @ ''Bo'']"
  "map line_text (allLines (scenes (projr (analyzeScriptText
      (''AB:'' @ [CHR 0xA0] @ ''x'' @ [CHR 0xA0, LF] @ ''AB: y'' @ [LF, CHR 0xA0])))))
     = [''x'', ''y'']"
  "title (projr (analyzeScriptText
      (''AB:'' @ [CHR 0xA0] @ ''x'' @ [CHR 0xA0, LF] @ ''AB: y'' @ [LF, CHR 0xA0])))
     = ''Copione Importato''"
  "map scene_name (scenes (projr (analyzeScriptText
      ([CHR 0xA0] @ ''ATTO I'' @ [CHR 0xA0, LF] @ ''ACT'' @ [CHR 0xA0] @ ''2''))))
     = [''Scena 1'', ''ATTO I'', ''ACT'' @ [CHR 0xA0] @ ''2'']"
  "\<not> continuationLine chars [CHR 0xA0]"
  "isCommonWord (''perch'' @ [CHR 0xE9])"
  "\<not> isCommonWord (''perch'' @ [CHR 0xE8])"
  "toUpperCase (''stra'' @ [CHR 0xDF, CHR 0xB5, CHR 0xFF, CHR 0xF7] @ ''e'')
     = [0x53, 0x54, 0x52, 0x41, 0x53, 0x53, 0x39C, 0x178, 0xF7, 0x45]"
  by (code_simp, code_simp, code_simp, code_simp, simp add: continuationLine_def trim_def isSpace_def,
      code_simp, code_simp, code_simp)

end
